theory Spec2Isabelle
  imports Complex_Main
begin

section \<open>Common conventions\<close>

text \<open>
  The notebooks compute with NumPy arrays of double-precision numbers. The development
  models numbers as \<^typ>\<open>real\<close> (exact arithmetic), one-dimensional arrays as lists,
  and every exception the Python code can raise as a value of \<open>error + 'a\<close>.
\<close>

datatype error = IndexError | KeyError | ValueError | UnboundLocalError

text \<open>\<^verbatim>\<open>np.max\<close> of a one-dimensional array; an empty array raises \<^verbatim>\<open>ValueError\<close>.\<close>

fun np_max :: "real list \<Rightarrow> error + real" where
  "np_max [] = Inl ValueError"
| "np_max (v # vs) = Inr (fold max vs v)"

section \<open>Statistical learning notebook: the threshold estimator\<close>

text \<open>
  \<^verbatim>\<open>
  def indicator(x, p):
      return np.where(x < p, np.ones_like(x), np.zeros_like(x))
  \<close>
\<close>

definition indicator :: "real list \<Rightarrow> real \<Rightarrow> real list" where
  "indicator x p = map (\<lambda>xi. if xi < p then 1 else 0) x"

text \<open>
  Boolean-mask indexing \<^verbatim>\<open>x[m]\<close>: the entries of \<open>x\<close> at the positions where the mask
  holds, in order. A mask of another length raises \<^verbatim>\<open>IndexError\<close>.
\<close>

definition mask_select :: "'a list \<Rightarrow> bool list \<Rightarrow> error + 'a list" where
  "mask_select x m =
     (if length m \<noteq> length x then Inl IndexError
      else Inr (map fst (filter snd (zip x m))))"

text \<open>
  \<^verbatim>\<open>
  def algorithm_p_hat(x, y):
      y_heads = y==1.0
      if np.all(~y_heads):
          return 0.0
      else:
          return np.max(x[y_heads])
  \<close>
\<close>

definition algorithm_p_hat :: "real list \<Rightarrow> real list \<Rightarrow> error + real" where
  "algorithm_p_hat x y =
     (let y_heads = map (\<lambda>yi. yi = 1) y in
      if list_all Not y_heads then Inr 0
      else case mask_select x y_heads of
             Inl e \<Rightarrow> Inl e
           | Inr heads \<Rightarrow> np_max heads)"

section \<open>Model-free reinforcement learning notebook: tabular Q-learning\<close>

subsection \<open>State and reward parsers\<close>

text \<open>
  The raw state returned by \<^verbatim>\<open>getGameState()\<close> is a dictionary of eight numbers
  (integers or floats); \<open>parse_state\<close> reads three of them.
\<close>

record game_state =
  player_y :: real
  player_vel :: real
  next_pipe_dist_to_player :: real
  next_pipe_top_y :: real
  next_pipe_bottom_y :: real
  next_next_pipe_dist_to_player :: real
  next_next_pipe_top_y :: real
  next_next_pipe_bottom_y :: real

text \<open>
  \<^verbatim>\<open>
  bin_size = 10
  n_bins_dist = np.ceil(350 / bin_size).astype('int')
  n_bins_top = np.ceil(1024 / bin_size).astype('int')
  n_bins_bot = np.ceil(1024 / bin_size).astype('int')
  \<close>
\<close>

definition bin_size :: real where
  "bin_size = 10"

definition n_bins_dist :: nat where
  "n_bins_dist = nat \<lceil>350 / bin_size\<rceil>"

definition n_bins_top :: nat where
  "n_bins_top = nat \<lceil>1024 / bin_size\<rceil>"

definition n_bins_bot :: nat where
  "n_bins_bot = nat \<lceil>1024 / bin_size\<rceil>"

text \<open>
  \<^verbatim>\<open>
  def parse_state(game_state):
      state = np.zeros((3, ), dtype=int)
      state[0] = game_state['next_pipe_dist_to_player'] // bin_size
      state[1] = (game_state['next_pipe_top_y'] - game_state['player_y'] + 512) // bin_size
      state[2] = (game_state['next_pipe_bottom_y'] - game_state['player_y'] + 512) // bin_size
      return state
  \<close>
  Python's \<^verbatim>\<open>//\<close> is floor division, on integers and on floats alike; the parsed state
  is a triple of integers, which may be negative.
\<close>

type_synonym state = "int \<times> int \<times> int"

definition parse_state :: "game_state \<Rightarrow> state" where
  "parse_state g =
     (\<lfloor>next_pipe_dist_to_player g / bin_size\<rfloor>,
      \<lfloor>(next_pipe_top_y g - player_y g + 512) / bin_size\<rfloor>,
      \<lfloor>(next_pipe_bottom_y g - player_y g + 512) / bin_size\<rfloor>)"

text \<open>
  \<^verbatim>\<open>
  def parse_reward(game_reward):
      return 1.0 if game_reward>= 0 else -100.0
  \<close>
\<close>

definition parse_reward :: "real \<Rightarrow> real" where
  "parse_reward game_reward = (if game_reward \<ge> 0 then 1 else - 100)"

subsection \<open>The Q tensor\<close>

text \<open>
  \<open>Q\<close> is a four-dimensional NumPy array: three state axes and one action axis. The model
  keeps its shape and its entries, addressed by a tuple of four naturals. Entries outside
  the shape are never read or written by the operations below.
\<close>

record q_table =
  shape :: "nat \<times> nat \<times> nat \<times> nat"
  cells :: "nat \<times> nat \<times> nat \<times> nat \<Rightarrow> real"

definition np_zeros4 :: "nat \<times> nat \<times> nat \<times> nat \<Rightarrow> q_table" where
  "np_zeros4 dims = \<lparr>shape = dims, cells = (\<lambda>_. 0)\<rparr>"

text \<open>\<^verbatim>\<open>Q = np.zeros((n_bins_dist, n_bins_top, n_bins_bot, 2))\<close>\<close>

definition Q_init :: q_table where
  "Q_init = np_zeros4 (n_bins_dist, n_bins_top, n_bins_bot, 2)"

text \<open>
  An integer index into an axis of size \<open>n\<close>: NumPy counts a negative index from the end
  and raises \<^verbatim>\<open>IndexError\<close> outside \<open>[-n, n)\<close>.
\<close>

definition norm_index :: "nat \<Rightarrow> int \<Rightarrow> error + nat" where
  "norm_index n i =
     (if 0 \<le> i \<and> i < int n then Inr (nat i)
      else if - int n \<le> i \<and> i < 0 then Inr (nat (i + int n))
      else Inl IndexError)"

text \<open>The position of the row \<^verbatim>\<open>Q[tuple(state)]\<close>.\<close>

definition row_index :: "q_table \<Rightarrow> state \<Rightarrow> error + nat \<times> nat \<times> nat" where
  "row_index Q s =
     (case (shape Q, s) of ((d0, d1, d2, d3), (i, j, k)) \<Rightarrow>
        (case norm_index d0 i of Inl e \<Rightarrow> Inl e | Inr i' \<Rightarrow>
        (case norm_index d1 j of Inl e \<Rightarrow> Inl e | Inr j' \<Rightarrow>
        (case norm_index d2 k of Inl e \<Rightarrow> Inl e | Inr k' \<Rightarrow> Inr (i', j', k')))))"

definition n_actions :: "q_table \<Rightarrow> nat" where
  "n_actions Q = (case shape Q of (d0, d1, d2, d3) \<Rightarrow> d3)"

text \<open>The row \<^verbatim>\<open>Q[tuple(state)]\<close>, one value per action.\<close>

definition q_row :: "q_table \<Rightarrow> state \<Rightarrow> error + real list" where
  "q_row Q s =
     (case row_index Q s of Inl e \<Rightarrow> Inl e
      | Inr (i, j, k) \<Rightarrow> Inr (map (\<lambda>a. cells Q (i, j, k, a)) [0..<n_actions Q]))"

text \<open>The position of the entry \<^verbatim>\<open>Q[tuple(state)][action]\<close>, and its value.\<close>

definition entry_index :: "q_table \<Rightarrow> state \<Rightarrow> int \<Rightarrow> error + nat \<times> nat \<times> nat \<times> nat" where
  "entry_index Q s a =
     (case row_index Q s of Inl e \<Rightarrow> Inl e
      | Inr (i, j, k) \<Rightarrow>
          (case norm_index (n_actions Q) a of Inl e \<Rightarrow> Inl e
           | Inr a' \<Rightarrow> Inr (i, j, k, a')))"

definition q_get :: "q_table \<Rightarrow> state \<Rightarrow> int \<Rightarrow> error + real" where
  "q_get Q s a = (case entry_index Q s a of Inl e \<Rightarrow> Inl e | Inr idx \<Rightarrow> Inr (cells Q idx))"

subsection \<open>Action choice and the update rule\<close>

text \<open>
  \<^verbatim>\<open>
  def choose_action(state, Q):
      q_up, q_nothing = Q[tuple(state)]
      return 0 if q_up > q_nothing else 1

  action_dict = {0: 119, 1: None}
  \<close>
  Unpacking a row that does not hold exactly two values raises \<^verbatim>\<open>ValueError\<close>.
\<close>

definition choose_action :: "state \<Rightarrow> q_table \<Rightarrow> error + nat" where
  "choose_action s Q =
     (case q_row Q s of Inl e \<Rightarrow> Inl e
      | Inr row \<Rightarrow>
          (case row of
             [q_up, q_nothing] \<Rightarrow> Inr (if q_up > q_nothing then 0 else 1)
           | _ \<Rightarrow> Inl ValueError))"

definition action_dict :: "nat \<Rightarrow> error + nat option" where
  "action_dict a = (if a = 0 then Inr (Some 119) else if a = 1 then Inr None else Inl KeyError)"

text \<open>
  \<^verbatim>\<open>
  def update_Q(Q, state, next_state, action, reward, alpha, gamma):
      Q_new = reward + gamma * np.max(Q[tuple(next_state)])
      Q_old = Q[tuple(state)][action]
      Q[tuple(state)][action] = (1 - alpha) * Q_old + alpha * Q_new
  \<close>
  The Python function mutates \<open>Q\<close> in place; the model returns the updated tensor. Every
  exception is raised before the assignment, so a failing call leaves \<open>Q\<close> as it was.
\<close>

definition update_Q ::
  "q_table \<Rightarrow> state \<Rightarrow> state \<Rightarrow> int \<Rightarrow> real \<Rightarrow> real \<Rightarrow> real \<Rightarrow> error + q_table" where
  "update_Q Q s next_state action reward alpha gamma =
     (case q_row Q next_state of Inl e \<Rightarrow> Inl e | Inr next_row \<Rightarrow>
     (case np_max next_row of Inl e \<Rightarrow> Inl e | Inr best \<Rightarrow>
     (let Q_new = reward + gamma * best in
      case entry_index Q s action of Inl e \<Rightarrow> Inl e | Inr idx \<Rightarrow>
     (let Q_old = cells Q idx in
      Inr (Q\<lparr>cells := (cells Q)(idx := (1 - alpha) * Q_old + alpha * Q_new)\<rparr>)))))"

subsection \<open>Sequences of updates and the notions used to state their properties\<close>

text \<open>
  A finite sequence of \<open>update_Q\<close> calls with one discount \<open>gamma\<close>, as the training loop
  issues them: each call gives the state, the next state, the action, the reward and the
  step size. An exception ends the run.
\<close>

type_synonym update_call = "state \<times> state \<times> int \<times> real \<times> real"

fun apply_updates :: "real \<Rightarrow> q_table \<Rightarrow> update_call list \<Rightarrow> error + q_table" where
  "apply_updates gamma Q [] = Inr Q"
| "apply_updates gamma Q ((s, next_state, action, reward, alpha) # calls) =
     (case update_Q Q s next_state action reward alpha gamma of
        Inl e \<Rightarrow> Inl e
      | Inr Q' \<Rightarrow> apply_updates gamma Q' calls)"

text \<open>Every entry of the tensor lies in \<open>[lo, hi]\<close>.\<close>

definition bounded_Q :: "real \<Rightarrow> real \<Rightarrow> q_table \<Rightarrow> bool" where
  "bounded_Q lo hi Q \<longleftrightarrow> (\<forall>idx. lo \<le> cells Q idx \<and> cells Q idx \<le> hi)"

text \<open>
  The ranges the notebook gives for the parsed features: the distance to the next pipe in
  \<open>[0, 350)\<close> and both height differences in \<open>[-512, 512)\<close>.
\<close>

definition in_screen :: "game_state \<Rightarrow> bool" where
  "in_screen g \<longleftrightarrow>
     0 \<le> next_pipe_dist_to_player g \<and> next_pipe_dist_to_player g < 350 \<and>
     - 512 \<le> next_pipe_top_y g - player_y g \<and> next_pipe_top_y g - player_y g < 512 \<and>
     - 512 \<le> next_pipe_bottom_y g - player_y g \<and> next_pipe_bottom_y g - player_y g < 512"

text \<open>The game state printed in the notebook, used as a concrete input.\<close>

definition example_game_state :: game_state where
  "example_game_state =
     \<lparr>player_y = 256, player_vel = 0, next_pipe_dist_to_player = 309,
      next_pipe_top_y = 53, next_pipe_bottom_y = 153,
      next_next_pipe_dist_to_player = 453, next_next_pipe_top_y = 153,
      next_next_pipe_bottom_y = 253\<rparr>"

text \<open>
  A small tensor of shape \<open>(2, 2, 2, 2)\<close> with three non-zero entries, used as a concrete
  input.
\<close>

definition example_Q :: q_table where
  "example_Q =
     \<lparr>shape = (2, 2, 2, 2),
      cells = (\<lambda>_. 0)((0, 0, 0, 1) := 3, (1, 0, 0, 0) := 5, (1, 0, 0, 1) := 2)\<rparr>"

section \<open>Decision-making notebook: model-based policy iteration\<close>

subsection \<open>The environment\<close>

text \<open>
  The Gym environment gives the number of states \<^verbatim>\<open>env.nS\<close>, the number of actions
  \<^verbatim>\<open>env.nA\<close> and the transition table \<^verbatim>\<open>env.P\<close>, a dictionary of dictionaries:
  \<^verbatim>\<open>env.P[state][action]\<close> is a list of tuples (probability, next state, reward, status).
  A missing key raises \<^verbatim>\<open>KeyError\<close>. States and actions are natural numbers.
\<close>

type_synonym transition = "real \<times> nat \<times> real \<times> bool"

record env =
  nS :: nat
  nA :: nat
  P :: "nat \<Rightarrow> nat \<Rightarrow> transition list option"

subsection \<open>Policy evaluation\<close>

text \<open>
  \<^verbatim>\<open>
  def policy_evaluation(env, policy, gamma, max_iter):
      value_function = np.zeros(env.nS)
      for _ in range(max_iter):
          tmp = np.zeros_like(value_function)
          for state, action in enumerate(policy):
              for probablity, next_state, reward, _ in env.P[state][action]:
                  tmp[state] += probablity * (
                      reward + gamma * value_function[next_state])
          value_function = tmp
      return value_function
  \<close>
  The innermost loop, which \<open>compute_action_value\<close> repeats on another array: it adds
  one term per transition to the entry \<open>arr[idx]\<close>. Reading \<open>value_function\<close> or \<open>arr\<close>
  out of range raises \<^verbatim>\<open>IndexError\<close>.
\<close>

fun bellman_sum ::
  "real \<Rightarrow> real list \<Rightarrow> transition list \<Rightarrow> real list \<Rightarrow> nat \<Rightarrow> error + real list" where
  "bellman_sum gamma value_function [] arr idx = Inr arr"
| "bellman_sum gamma value_function ((probability, next_state, reward, done) # rest) arr idx =
     (if length value_function \<le> next_state then Inl IndexError
      else if length arr \<le> idx then Inl IndexError
      else bellman_sum gamma value_function rest
             (arr[idx := arr ! idx + probability * (reward + gamma * value_function ! next_state)])
             idx)"

text \<open>The number the innermost loop adds up, starting from \<open>acc\<close>.\<close>

definition expected_return :: "real \<Rightarrow> real list \<Rightarrow> transition list \<Rightarrow> real \<Rightarrow> real" where
  "expected_return gamma value_function transitions acc =
     foldl (\<lambda>acc (probability, next_state, reward, done).
              acc + probability * (reward + gamma * value_function ! next_state))
       acc transitions"

text \<open>One sweep over \<^verbatim>\<open>enumerate(policy)\<close>, and the bounded loop of sweeps.\<close>

fun evaluation_sweep ::
  "env \<Rightarrow> real \<Rightarrow> real list \<Rightarrow> (nat \<times> nat) list \<Rightarrow> real list \<Rightarrow> error + real list" where
  "evaluation_sweep env gamma value_function [] tmp = Inr tmp"
| "evaluation_sweep env gamma value_function ((state, action) # rest) tmp =
     (case P env state action of
        None \<Rightarrow> Inl KeyError
      | Some transitions \<Rightarrow>
          (case bellman_sum gamma value_function transitions tmp state of
             Inl e \<Rightarrow> Inl e
           | Inr tmp' \<Rightarrow> evaluation_sweep env gamma value_function rest tmp'))"

fun evaluation_loop ::
  "env \<Rightarrow> nat list \<Rightarrow> real \<Rightarrow> nat \<Rightarrow> real list \<Rightarrow> error + real list" where
  "evaluation_loop env policy gamma 0 value_function = Inr value_function"
| "evaluation_loop env policy gamma (Suc n) value_function =
     (case evaluation_sweep env gamma value_function (enumerate 0 policy)
             (replicate (length value_function) 0) of
        Inl e \<Rightarrow> Inl e
      | Inr tmp \<Rightarrow> evaluation_loop env policy gamma n tmp)"

definition policy_evaluation :: "env \<Rightarrow> nat list \<Rightarrow> real \<Rightarrow> nat \<Rightarrow> error + real list" where
  "policy_evaluation env policy gamma max_iter =
     evaluation_loop env policy gamma max_iter (replicate (nS env) 0)"

subsection \<open>Policy improvement\<close>

text \<open>
  \<^verbatim>\<open>
  def compute_action_value(env, state, value_function, gamma):
      action_values = np.zeros(env.nA)
      for action in range(env.nA):
          for probablity, next_state, reward, info in env.P[state][action]:
              action_values[action] += probablity * (
                  reward + (gamma * value_function[next_state]))
      return action_values
  \<close>
\<close>

fun action_value_loop ::
  "env \<Rightarrow> nat \<Rightarrow> real list \<Rightarrow> real \<Rightarrow> nat list \<Rightarrow> real list \<Rightarrow> error + real list" where
  "action_value_loop env state value_function gamma [] action_values = Inr action_values"
| "action_value_loop env state value_function gamma (action # rest) action_values =
     (case P env state action of
        None \<Rightarrow> Inl KeyError
      | Some transitions \<Rightarrow>
          (case bellman_sum gamma value_function transitions action_values action of
             Inl e \<Rightarrow> Inl e
           | Inr action_values' \<Rightarrow>
               action_value_loop env state value_function gamma rest action_values'))"

definition compute_action_value :: "env \<Rightarrow> nat \<Rightarrow> real list \<Rightarrow> real \<Rightarrow> error + real list" where
  "compute_action_value env state value_function gamma =
     action_value_loop env state value_function gamma [0..<nA env] (replicate (nA env) 0)"

text \<open>
  \<^verbatim>\<open>np.argmax\<close>: the first index of the greatest entry; an empty array raises
  \<^verbatim>\<open>ValueError\<close>.
\<close>

fun first_index :: "real \<Rightarrow> real list \<Rightarrow> nat" where
  "first_index m [] = 0"
| "first_index m (v # vs) = (if v = m then 0 else Suc (first_index m vs))"

definition np_argmax :: "real list \<Rightarrow> error + nat" where
  "np_argmax vs = (case np_max vs of Inl e \<Rightarrow> Inl e | Inr m \<Rightarrow> Inr (first_index m vs))"

text \<open>
  \<^verbatim>\<open>
  def policy_improvement(env, value_function, gamma):
      policy = np.zeros(env.nS)
      for state in range(env.nS):
          action_values = compute_action_value(env, state, value_function, gamma)
          policy[state] = np.argmax(action_values)
      return policy
  \<close>
\<close>

fun improvement_loop ::
  "env \<Rightarrow> real list \<Rightarrow> real \<Rightarrow> nat list \<Rightarrow> nat list \<Rightarrow> error + nat list" where
  "improvement_loop env value_function gamma [] policy = Inr policy"
| "improvement_loop env value_function gamma (state # rest) policy =
     (case compute_action_value env state value_function gamma of
        Inl e \<Rightarrow> Inl e
      | Inr action_values \<Rightarrow>
          (case np_argmax action_values of
             Inl e \<Rightarrow> Inl e
           | Inr best \<Rightarrow>
               improvement_loop env value_function gamma rest (policy[state := best])))"

definition policy_improvement :: "env \<Rightarrow> real list \<Rightarrow> real \<Rightarrow> error + nat list" where
  "policy_improvement env value_function gamma =
     improvement_loop env value_function gamma [0..<nS env] (replicate (nS env) 0)"

subsection \<open>Policy iteration\<close>

text \<open>
  \<^verbatim>\<open>
  def policy_iteration(env, max_iter=100):
      policy = np.random.choice(range(env.nA), size=(env.nS))
      policy_prev = np.copy(policy)
      for i in range(max_iter):
          value_function = policy_evaluation(env, policy, 1.0, 100)
          policy = policy_improvement(env, value_function, 1.0)
      return value_function, policy
  \<close>
  The loop state holds the two variables the body assigns: \<open>value_function\<close>, unbound
  before the first round, and \<open>policy\<close>. The copy \<open>policy_prev\<close> is never read. The field \<open>evaluations\<close> is not in the source: it
  logs the value function of every round, oldest first, so that the rounds can be
  counted and compared.
\<close>

record iteration_state =
  value_function :: "real list option"
  policy :: "nat list"
  evaluations :: "real list list"

definition initial_state :: "nat list \<Rightarrow> iteration_state" where
  "initial_state policy0 = \<lparr>value_function = None, policy = policy0, evaluations = []\<rparr>"

definition iteration_round :: "env \<Rightarrow> iteration_state \<Rightarrow> error + iteration_state" where
  "iteration_round env st =
     (case policy_evaluation env (policy st) 1 100 of
        Inl e \<Rightarrow> Inl e
      | Inr v \<Rightarrow>
          (case policy_improvement env v 1 of
             Inl e \<Rightarrow> Inl e
           | Inr p \<Rightarrow>
               Inr \<lparr>value_function = Some v, policy = p, evaluations = evaluations st @ [v]\<rparr>))"

fun iteration_loop :: "env \<Rightarrow> nat \<Rightarrow> iteration_state \<Rightarrow> error + iteration_state" where
  "iteration_loop env 0 st = Inr st"
| "iteration_loop env (Suc n) st =
     (case iteration_round env st of
        Inl e \<Rightarrow> Inl e
      | Inr st' \<Rightarrow> iteration_loop env n st')"

text \<open>
  The random initial policy is an argument \<open>policy0\<close>. \<^verbatim>\<open>np.random.choice\<close> raises
  \<^verbatim>\<open>ValueError\<close> when there is no action to draw and at least one state. Returning
  \<open>value_function\<close> while it is unbound raises \<^verbatim>\<open>UnboundLocalError\<close>.
\<close>

definition policy_iteration :: "env \<Rightarrow> nat list \<Rightarrow> nat \<Rightarrow> error + real list \<times> nat list" where
  "policy_iteration env policy0 max_iter =
     (if nA env = 0 \<and> nS env \<noteq> 0 then Inl ValueError
      else case iteration_loop env max_iter (initial_state policy0) of
             Inl e \<Rightarrow> Inl e
           | Inr st \<Rightarrow>
               (case value_function st of
                  None \<Rightarrow> Inl UnboundLocalError
                | Some v \<Rightarrow> Inr (v, policy st)))"

text \<open>The value functions computed by the rounds of \<open>policy_iteration\<close>, in order.\<close>

definition policy_iteration_trace :: "env \<Rightarrow> nat list \<Rightarrow> nat \<Rightarrow> error + real list list" where
  "policy_iteration_trace env policy0 max_iter =
     (if nA env = 0 \<and> nS env \<noteq> 0 then Inl ValueError
      else case iteration_loop env max_iter (initial_state policy0) of
             Inl e \<Rightarrow> Inl e
           | Inr st \<Rightarrow> Inr (evaluations st))"

subsection \<open>Well-formed inputs and an example environment\<close>

text \<open>
  A table is well formed when it has an entry for every state and action and every
  transition leads to a state of the environment. A policy is valid when it gives one
  action of the environment per state, as \<^verbatim>\<open>np.random.choice\<close> draws it.
\<close>

definition targets_within :: "nat \<Rightarrow> transition list \<Rightarrow> bool" where
  "targets_within n transitions \<longleftrightarrow>
     list_all (\<lambda>(probability, next_state, reward, done). next_state < n) transitions"

definition well_formed :: "env \<Rightarrow> bool" where
  "well_formed env \<longleftrightarrow>
     list_all (\<lambda>state. list_all (\<lambda>action.
        case P env state action of
          None \<Rightarrow> False
        | Some transitions \<Rightarrow>
            list_all (\<lambda>(probability, next_state, reward, done). next_state < nS env) transitions)
        [0..<nA env]) [0..<nS env]"

definition valid_policy :: "env \<Rightarrow> nat list \<Rightarrow> bool" where
  "valid_policy env pol \<longleftrightarrow> length pol = nS env \<and> list_all (\<lambda>action. action < nA env) pol"

text \<open>
  Three states and two actions. State 1 pays 2 at every step and state 2 pays nothing,
  whatever the action. From state 0, action 0 pays 199 and moves to state 2, action 1
  pays nothing and moves to state 1.
\<close>

definition shortcut_env :: env where
  "shortcut_env =
     \<lparr>nS = 3, nA = 2,
      P = (\<lambda>state action.
             if 2 \<le> action then None
             else if state = 0 then
               (if action = 0 then Some [(1, 2, 199, True)] else Some [(1, 1, 0, False)])
             else if state = 1 then Some [(1, 1, 2, False)]
             else if state = 2 then Some [(1, 2, 0, True)]
             else None)\<rparr>"

section \<open>PCA notebook: the recommender\<close>

text \<open>
  \<^verbatim>\<open>
  def recommend(bought_id, num_recommendation=5):
      print(f'You bought:\n\n{SKU_data.description[bought_id][:100]}'+'...')
      scores = latents.to_numpy()[:, :10]
      distances = np.sum((scores - scores[bought_id, np.newaxis, :])**2, axis=1)
      rec_ids = np.argsort(distances)[1:1+num_recommendation]
      rec_desc = SKU_data.description[rec_ids].to_numpy()
      print('\n\nWe recommend:\n')
      for i, d in zip(rec_ids, rec_desc):
          print(f'Id: {i} | Product: {d[:80]+"..."}')
  \<close>
  The global \<open>latents\<close> is a table with one row of principal-component scores per item; it
  is an argument of the model, a list of rows. The function prints and returns nothing:
  the model returns the list \<open>rec_ids\<close> of the items it prints. \<open>SKU_data\<close> has one
  description per row of \<open>latents\<close> under the labels \<open>0, 1, \<dots>\<close>, so that looking up a
  \<open>bought_id\<close> outside them raises \<^verbatim>\<open>KeyError\<close>.
\<close>

text \<open>The row sum of the squared differences of two rows.\<close>

definition squared_distance :: "real list \<Rightarrow> real list \<Rightarrow> real" where
  "squared_distance u v = sum_list (map2 (\<lambda>a b. (a - b)\<^sup>2) u v)"

text \<open>
  \<^verbatim>\<open>np.argsort\<close>: the indices of the array in ascending order of its entries. Equal
  entries are kept in index order, as the insertion sort that NumPy's default sort uses
  on short arrays leaves them.
\<close>

definition np_argsort :: "real list \<Rightarrow> nat list" where
  "np_argsort ds = sort_key (\<lambda>i. ds ! i) [0..<length ds]"

definition recommend :: "real list list \<Rightarrow> int \<Rightarrow> nat \<Rightarrow> error + nat list" where
  "recommend latents bought_id num_recommendation =
     (if bought_id < 0 \<or> int (length latents) \<le> bought_id then Inl KeyError
      else
        let scores = map (take 10) latents;
            distances = map (\<lambda>row. squared_distance row (scores ! nat bought_id)) scores;
            rec_ids = take num_recommendation (drop 1 (np_argsort distances))
        in Inr rec_ids)"

text \<open>The distance the recommender sorts by: item \<open>i\<close> against the bought item \<open>b\<close>.\<close>

definition latent_distance :: "real list list \<Rightarrow> nat \<Rightarrow> nat \<Rightarrow> real" where
  "latent_distance latents b i = squared_distance (take 10 (latents ! i)) (take 10 (latents ! b))"

text \<open>
  Three items with eleven scores each. The first two agree on the first ten scores and
  differ in the eleventh.
\<close>

definition duplicate_latents :: "real list list" where
  "duplicate_latents =
     [[1, 2, 0, 0, 0, 0, 0, 0, 0, 0, 7],
      [1, 2, 0, 0, 0, 0, 0, 0, 0, 0, 9],
      [4, 6, 0, 0, 0, 0, 0, 0, 0, 0, 1]]"


section \<open>Properties of the threshold estimator\<close>

lemma fold_max_Max: "fold max vs (v::real) = Max (set (v # vs))"
  by (metis Max.set_eq_fold)

lemma np_max_Max: "vs \<noteq> [] \<Longrightarrow> np_max vs = Inr (Max (set vs))"
  by (cases vs) (simp_all add: fold_max_Max del: set_simps)

lemma set_mask_heads:
  assumes "length x = length y"
  shows "set (map fst (filter snd (zip x (map sel y)))) = {x ! i | i. i < length x \<and> sel (y ! i)}"
  using assms by (force simp: set_zip in_set_conv_nth image_iff)

lemma no_heads_iff: "list_all Not (map (\<lambda>yi. yi = c) y) \<longleftrightarrow> \<not> (\<exists>i<length y. y ! i = c)"
  by (auto simp: list_all_length)

lemma heads_nonempty:
  assumes "length x = length y" and "i < length y" and "sel (y ! i)"
  shows "map fst (filter snd (zip x (map sel y))) \<noteq> []"
proof -
  have "x ! i \<in> {x ! j | j. j < length x \<and> sel (y ! j)}"
    using assms by auto
  then have "x ! i \<in> set (map fst (filter snd (zip x (map sel y))))"
    using set_mask_heads [OF assms(1), of sel] by simp
  then show ?thesis by force
qed

lemma algorithm_p_hat_Max:
  assumes "length x = length y"
  shows "algorithm_p_hat x y =
           Inr (if \<exists>i<length y. y ! i = 1
                then Max {x ! i | i. i < length x \<and> y ! i = 1}
                else 0)"
proof (cases "\<exists>i<length y. y ! i = 1")
  case False
  then have "algorithm_p_hat x y = Inr 0"
    by (simp add: algorithm_p_hat_def no_heads_iff)
  with False show ?thesis
    by (simp only: if_False)
next
  case True
  then obtain i where i: "i < length y" "y ! i = 1" by blast
  have ne: "map fst (filter snd (zip x (map (\<lambda>yi. yi = 1) y))) \<noteq> []"
    using heads_nonempty [OF assms i(1), of "\<lambda>yi. yi = 1"] i(2) by simp
  have "algorithm_p_hat x y = np_max (map fst (filter snd (zip x (map (\<lambda>yi. yi = 1) y))))"
    using True assms by (simp add: algorithm_p_hat_def no_heads_iff mask_select_def)
  also have "\<dots> = Inr (Max (set (map fst (filter snd (zip x (map (\<lambda>yi. yi = 1) y))))))"
    using ne by (rule np_max_Max)
  also have "set (map fst (filter snd (zip x (map (\<lambda>yi. yi = 1) y))))
               = {x ! i | i. i < length x \<and> y ! i = 1}"
    using assms by (rule set_mask_heads)
  finally show ?thesis using True by (simp only: if_True)
qed

text \<open>
  Claim C4. For arrays \<open>x\<close> and \<open>y\<close> of equal length, \<open>algorithm_p_hat x y\<close> returns the
  greatest entry of \<open>x\<close> among the positions where \<open>y\<close> is 1.0 when there is such a
  position, and the sentinel 0.0 otherwise; it never raises, also on empty arrays.
\<close>

theorem algorithm_p_hat_spec:
  assumes "length x = length y"
  shows "algorithm_p_hat x y =
           Inr (if \<exists>i<length y. y ! i = 1
                then Max {x ! i | i. i < length x \<and> y ! i = 1}
                else 0)"
  using assms by (rule algorithm_p_hat_Max)

theorem algorithm_p_hat_spec_witness:
  "length [0.2, 0.5, 0.1 :: real] = length [1, 0, 1 :: real]
   \<and> algorithm_p_hat [0.2, 0.5, 0.1] [1, 0, 1] = Inr 0.2
   \<and> algorithm_p_hat [] [] = Inr 0"
  using algorithm_p_hat_spec [of "[0.2, 0.5, 0.1]" "[1, 0, 1]"]
  by (simp add: algorithm_p_hat_def mask_select_def)

text \<open>
  Claim C5. When the labels come from the labelling rule \<open>y = indicator x p_star\<close> with a
  threshold \<open>p_star \<ge> 0\<close>, the estimate returned by \<open>algorithm_p_hat\<close> never exceeds
  \<open>p_star\<close>.
\<close>

theorem algorithm_p_hat_le_p_star:
  assumes "0 \<le> p_star"
  shows "\<exists>p_hat. algorithm_p_hat x (indicator x p_star) = Inr p_hat \<and> p_hat \<le> p_star"
proof -
  let ?y = "indicator x p_star"
  have len: "length x = length ?y" by (simp add: indicator_def)
  have lab: "?y ! i = 1 \<longleftrightarrow> x ! i < p_star" if "i < length x" for i
    using that by (simp add: indicator_def)
  show ?thesis
  proof (cases "\<exists>i<length ?y. ?y ! i = 1")
    case False
    then have "algorithm_p_hat x ?y = Inr 0"
      using algorithm_p_hat_Max [OF len] by (simp only: if_False)
    then show ?thesis
      using assms by simp
  next
    case True
    let ?S = "{x ! i | i. i < length x \<and> ?y ! i = 1}"
    have fin: "finite ?S" by simp
    have ne: "?S \<noteq> {}" using True len by auto
    have "Max ?S \<in> ?S" using fin ne by (rule Max_in)
    then obtain i where "i < length x" "?y ! i = 1" "Max ?S = x ! i" by blast
    then have "Max ?S < p_star" using lab by simp
    moreover have "algorithm_p_hat x ?y = Inr (Max ?S)"
      using True algorithm_p_hat_Max [OF len] by (simp only: if_True)
    ultimately show ?thesis by simp
  qed
qed

theorem algorithm_p_hat_le_p_star_witness:
  "(0::real) \<le> 0.3
   \<and> algorithm_p_hat [0.2, 0.5, 0.1] (indicator [0.2, 0.5, 0.1] 0.3) = Inr 0.2
   \<and> (0.2::real) \<le> 0.3"
  using algorithm_p_hat_le_p_star [of "0.3" "[0.2, 0.5, 0.1]"]
  by (simp add: algorithm_p_hat_def mask_select_def indicator_def)

section \<open>Properties of tabular Q-learning\<close>

lemma n_bins_values: "n_bins_dist = 35" "n_bins_top = 103" "n_bins_bot = 103"
  by (simp_all add: n_bins_dist_def n_bins_top_def n_bins_bot_def bin_size_def)

lemma norm_index_in_range: "0 \<le> i \<Longrightarrow> i < int n \<Longrightarrow> norm_index n i = Inr (nat i)"
  by (simp add: norm_index_def)

lemma convex_between:
  fixes a b alpha :: real
  assumes "0 < alpha" "alpha < 1"
  shows "min a b \<le> (1 - alpha) * a + alpha * b" "(1 - alpha) * a + alpha * b \<le> max a b"
proof -
  have eq: "(1 - alpha) * a + alpha * b = a + alpha * (b - a)"
    by (simp add: algebra_simps)
  have eq': "(1 - alpha) * a + alpha * b = b + (1 - alpha) * (a - b)"
    by (simp add: algebra_simps)
  show "min a b \<le> (1 - alpha) * a + alpha * b"
  proof (cases "a \<le> b")
    case True
    then have "0 \<le> alpha * (b - a)" using assms by simp
    with True show ?thesis unfolding eq by simp
  next
    case False
    then have "0 \<le> (1 - alpha) * (a - b)" using assms by simp
    with False show ?thesis unfolding eq' by simp
  qed
  show "(1 - alpha) * a + alpha * b \<le> max a b"
  proof (cases "a \<le> b")
    case True
    then have "(1 - alpha) * (a - b) \<le> 0" using assms by (simp add: mult_le_0_iff)
    with True show ?thesis unfolding eq' by simp
  next
    case False
    then have "alpha * (b - a) \<le> 0" using assms by (simp add: mult_le_0_iff)
    with False show ?thesis unfolding eq by simp
  qed
qed

lemma update_Q_Inr:
  assumes "update_Q Q s s' a r alpha gamma = Inr Q'"
  obtains idx next_row best where
    "entry_index Q s a = Inr idx" "q_row Q s' = Inr next_row" "np_max next_row = Inr best"
    "Q' = Q\<lparr>cells := (cells Q)(idx := (1 - alpha) * cells Q idx + alpha * (r + gamma * best))\<rparr>"
  using assms by (auto simp: update_Q_def Let_def split: sum.splits)

lemma update_Q_succeeds:
  assumes "entry_index Q s a = Inr idx" "q_row Q s' = Inr next_row" "np_max next_row = Inr best"
  shows "update_Q Q s s' a r alpha gamma =
           Inr (Q\<lparr>cells := (cells Q)(idx := (1 - alpha) * cells Q idx + alpha * (r + gamma * best))\<rparr>)"
  using assms by (simp add: update_Q_def Let_def)

lemma n_actions_update [simp]: "n_actions (Q\<lparr>cells := c\<rparr>) = n_actions Q"
  by (simp add: n_actions_def)

lemma row_index_update [simp]: "row_index (Q\<lparr>cells := c\<rparr>) s = row_index Q s"
  by (simp add: row_index_def)

lemma entry_index_update [simp]:
  "entry_index (Q\<lparr>cells := c\<rparr>) s a = entry_index Q s a"
  by (simp add: entry_index_def split: sum.splits)

lemma np_max_in_set: "np_max vs = Inr best \<Longrightarrow> best \<in> set vs \<and> (\<forall>v\<in>set vs. v \<le> best)"
proof -
  assume a: "np_max vs = Inr best"
  then have ne: "vs \<noteq> []" by (cases vs) auto
  with a have "best = Max (set vs)" by (simp add: np_max_Max)
  then show ?thesis using ne by (auto intro: Max_in)
qed

lemma norm_index_mod:
  assumes "- int n \<le> i" "i < int n"
  shows "norm_index n i = Inr (nat (i mod int n))"
proof (cases "0 \<le> i")
  case True
  then show ?thesis using assms by (simp add: norm_index_def)
next
  case False
  then have "0 \<le> i + int n" "i + int n < int n" using assms by simp_all
  then have "(i + int n) mod int n = i + int n" by (rule mod_pos_pos_trivial)
  then have "i mod int n = i + int n" by simp
  then show ?thesis using False assms by (simp add: norm_index_def)
qed

lemma row_index_mod:
  assumes "shape Q = (d0, d1, d2, d3)"
    and "- int d0 \<le> i" "i < int d0" "- int d1 \<le> j" "j < int d1" "- int d2 \<le> k" "k < int d2"
  shows "row_index Q (i, j, k) = Inr (nat (i mod int d0), nat (j mod int d1), nat (k mod int d2))"
  using assms by (simp add: row_index_def norm_index_mod)

text \<open>
  Claim C2. Let \<open>Q\<close> have shape \<open>(d0, d1, d2, d3)\<close> and let the states \<open>s = (i, j, k)\<close>,
  \<open>s' = (i', j', k')\<close> and the action \<open>a\<close> be in range, a negative index counting from the
  end. For a step size \<open>alpha\<close> in \<open>(0, 1)\<close>, \<open>update_Q\<close> assigns the entry \<open>Q[s][a]\<close> the
  value \<open>(1 - alpha) * Q_old + alpha * (r + gamma * best)\<close>, where \<open>Q_old\<close> is the previous
  entry and \<open>best\<close> is the greatest of the entries \<open>Q[s'][a']\<close> over all actions \<open>a'\<close>; the
  new entry lies between the old value and the target \<open>r + gamma * best\<close>, both included.
\<close>

theorem update_Q_convex:
  assumes "0 < alpha" and "alpha < 1"
    and "shape Q = (d0, d1, d2, d3)"
    and "- int d0 \<le> i" "i < int d0" "- int d1 \<le> j" "j < int d1" "- int d2 \<le> k" "k < int d2"
    and "- int d0 \<le> i'" "i' < int d0" "- int d1 \<le> j'" "j' < int d1"
        "- int d2 \<le> k'" "k' < int d2"
    and "- int d3 \<le> a" "a < int d3"
    and "idx = (nat (i mod int d0), nat (j mod int d1), nat (k mod int d2), nat (a mod int d3))"
    and "best = Max ((\<lambda>a'. cells Q (nat (i' mod int d0), nat (j' mod int d1),
                                        nat (k' mod int d2), a')) ` {..<d3})"
  shows "\<exists>Q'. update_Q Q (i, j, k) (i', j', k') a r alpha gamma = Inr Q'
           \<and> cells Q' idx = (1 - alpha) * cells Q idx + alpha * (r + gamma * best)
           \<and> min (cells Q idx) (r + gamma * best) \<le> cells Q' idx
           \<and> cells Q' idx \<le> max (cells Q idx) (r + gamma * best)
           \<and> q_get Q (i, j, k) a = Inr (cells Q idx)
           \<and> q_get Q' (i, j, k) a = Inr (cells Q' idx)"
proof -
  let ?row = "map (\<lambda>a'. cells Q (nat (i' mod int d0), nat (j' mod int d1), nat (k' mod int d2), a'))
                [0..<d3]"
  have n: "n_actions Q = d3" using assms(3) by (simp add: n_actions_def)
  have d3: "0 < d3" using assms(16,17) by linarith
  have e: "entry_index Q (i, j, k) a = Inr idx"
    using row_index_mod [OF assms(3-9)] norm_index_mod [OF assms(16,17)] n assms(18)
    by (simp add: entry_index_def)
  have r: "q_row Q (i', j', k') = Inr ?row"
    using row_index_mod [OF assms(3) assms(10-15)] n by (simp add: q_row_def)
  have "?row \<noteq> []" using d3 by simp
  then have "np_max ?row = Inr (Max (set ?row))" by (rule np_max_Max)
  moreover have "set ?row = (\<lambda>a'. cells Q (nat (i' mod int d0), nat (j' mod int d1),
                                        nat (k' mod int d2), a')) ` {..<d3}"
    by (simp add: atLeast0LessThan)
  ultimately have m: "np_max ?row = Inr best" using assms(19) by simp
  let ?new = "(1 - alpha) * cells Q idx + alpha * (r + gamma * best)"
  let ?Q' = "Q\<lparr>cells := (cells Q)(idx := ?new)\<rparr>"
  have run: "update_Q Q (i, j, k) (i', j', k') a r alpha gamma = Inr ?Q'"
    using e r m by (rule update_Q_succeeds)
  have c: "cells ?Q' idx = ?new" by simp
  have g: "q_get Q (i, j, k) a = Inr (cells Q idx)" using e by (simp add: q_get_def)
  have g': "q_get ?Q' (i, j, k) a = Inr (cells ?Q' idx)" using e by (simp add: q_get_def)
  have b: "min (cells Q idx) (r + gamma * best) \<le> cells ?Q' idx"
          "cells ?Q' idx \<le> max (cells Q idx) (r + gamma * best)"
    using convex_between [OF assms(1,2), of "cells Q idx" "r + gamma * best"] by simp_all
  show ?thesis
    using run c b g g' by blast
qed

theorem update_Q_convex_witness:
  "(0::real) < 1 / 2 \<and> (1 / 2 :: real) < 1 \<and> shape example_Q = (2, 2, 2, 2)
   \<and> (\<exists>Q'. update_Q example_Q (0, 0, 0) (- 1, 0, 0) 1 1 (1 / 2) (1 / 2) = Inr Q'
          \<and> cells example_Q (0, 0, 0, 1) = 3
          \<and> cells example_Q (1, 0, 0, 0) = 5
          \<and> cells example_Q (1, 0, 0, 1) = 2
          \<and> cells Q' (0, 0, 0, 1) = 13 / 4)"
proof -
  have sh: "shape example_Q = (2, 2, 2, 2)" by (simp add: example_Q_def)
  have best: "(5::real) = Max ((\<lambda>a'. cells example_Q (nat (- 1 mod int 2), nat (0 mod int 2),
                                        nat (0 mod int 2), a')) ` {..<2})"
    by (simp add: example_Q_def numeral_2_eq_2 lessThan_Suc)
  have idx: "(0, 0, 0, 1) = (nat (0 mod int 2), nat (0 mod int 2), nat (0 mod int 2), nat (1 mod int 2))"
    by simp
  have c: "cells example_Q (0, 0, 0, 1) = 3" "cells example_Q (1, 0, 0, 0) = 5"
    "cells example_Q (1, 0, 0, 1) = 2"
    by (simp_all add: example_Q_def)
  from update_Q_convex [of "1 / 2" example_Q 2 2 2 2 0 0 0 "- 1" 0 0 1 "(0, 0, 0, 1)" 5 1 "1 / 2",
      OF _ _ sh _ _ _ _ _ _ _ _ _ _ _ _ _ _ idx best]
  obtain Q' where "update_Q example_Q (0, 0, 0) (- 1, 0, 0) 1 1 (1 / 2) (1 / 2) = Inr Q'"
    "cells Q' (0, 0, 0, 1) = (1 - 1 / 2) * cells example_Q (0, 0, 0, 1) + 1 / 2 * (1 + 1 / 2 * 5)"
    by auto
  then show ?thesis using sh c by auto
qed

text \<open>
  Claim C7. A call of \<open>update_Q\<close> that returns changes only the entry \<open>Q[s][a]\<close>: the shape
  and every other entry of the tensor are as before.
\<close>

theorem update_Q_frame:
  assumes "update_Q Q s s' a r alpha gamma = Inr Q'"
  shows "shape Q' = shape Q
         \<and> (\<exists>idx. entry_index Q s a = Inr idx
                \<and> (\<forall>idx'. idx' \<noteq> idx \<longrightarrow> cells Q' idx' = cells Q idx'))"
  using assms by (elim update_Q_Inr) simp

theorem update_Q_frame_witness:
  "\<exists>Q'. update_Q Q_init (30, 30, 40) (30, 30, 41) 1 1 0.1 0.99 = Inr Q'
        \<and> shape Q' = shape Q_init
        \<and> entry_index Q_init (30, 30, 40) 1 = Inr (30, 30, 40, 1)
        \<and> cells Q' (30, 30, 40, 0) = cells Q_init (30, 30, 40, 0)"
proof -
  have e: "entry_index Q_init (30, 30, 40) 1 = Inr (30, 30, 40, 1)"
    by (simp add: entry_index_def row_index_def norm_index_def n_actions_def
        Q_init_def np_zeros4_def n_bins_values)
  have r: "q_row Q_init (30, 30, 41) = Inr [0, 0]"
    by (simp add: q_row_def row_index_def norm_index_def n_actions_def
        Q_init_def np_zeros4_def n_bins_values upt_rec)
  have "\<exists>Q'. update_Q Q_init (30, 30, 40) (30, 30, 41) 1 1 0.1 0.99 = Inr Q'"
    using update_Q_succeeds [OF e r, of 0] by simp
  then obtain Q' where run: "update_Q Q_init (30, 30, 40) (30, 30, 41) 1 1 0.1 0.99 = Inr Q'" ..
  show ?thesis
    using update_Q_frame [OF run] run e by auto
qed

lemma bounded_QD: "bounded_Q lo hi Q \<Longrightarrow> lo \<le> cells Q idx \<and> cells Q idx \<le> hi"
  unfolding bounded_Q_def by blast

lemma discounted_bound:
  fixes gamma r b :: real
  assumes "0 \<le> gamma" "gamma < 1"
  shows "r \<le> r_max \<Longrightarrow> b \<le> r_max / (1 - gamma) \<Longrightarrow> r + gamma * b \<le> r_max / (1 - gamma)"
    and "r_min \<le> r \<Longrightarrow> r_min / (1 - gamma) \<le> b \<Longrightarrow> r_min / (1 - gamma) \<le> r + gamma * b"
proof -
  have split: "c / (1 - gamma) = c + gamma * (c / (1 - gamma))" for c
    using assms by (simp add: field_simps)
  { assume "r \<le> r_max" "b \<le> r_max / (1 - gamma)"
    then have "r + gamma * b \<le> r_max + gamma * (r_max / (1 - gamma))"
      using assms by (intro add_mono mult_left_mono) auto
    then show "r + gamma * b \<le> r_max / (1 - gamma)" using split [of r_max] by simp }
  { assume "r_min \<le> r" "r_min / (1 - gamma) \<le> b"
    then have "r_min + gamma * (r_min / (1 - gamma)) \<le> r + gamma * b"
      using assms by (intro add_mono mult_left_mono) auto
    then show "r_min / (1 - gamma) \<le> r + gamma * b" using split [of r_min] by simp }
qed

lemma q_row_cells:
  assumes "q_row Q s = Inr row" "v \<in> set row"
  shows "\<exists>idx. v = cells Q idx"
proof -
  from assms obtain i j k a where "v = cells Q (i, j, k, a)"
    by (auto simp: q_row_def split: sum.splits)
  then show ?thesis by blast
qed

lemma update_Q_bounded:
  assumes g: "0 \<le> gamma" "gamma < 1" and al: "0 < alpha" "alpha < 1"
    and r: "r_min \<le> r" "r \<le> r_max"
    and inv: "bounded_Q (r_min / (1 - gamma)) (r_max / (1 - gamma)) Q"
    and run: "update_Q Q s s' a r alpha gamma = Inr Q'"
  shows "bounded_Q (r_min / (1 - gamma)) (r_max / (1 - gamma)) Q'"
proof -
  let ?lo = "r_min / (1 - gamma)" and ?hi = "r_max / (1 - gamma)"
  from run obtain idx next_row best where
    idx: "entry_index Q s a = Inr idx" and row: "q_row Q s' = Inr next_row"
    and best: "np_max next_row = Inr best"
    and Q': "Q' = Q\<lparr>cells := (cells Q)(idx := (1 - alpha) * cells Q idx + alpha * (r + gamma * best))\<rparr>"
    by (rule update_Q_Inr)
  have "best \<in> set next_row" using best by (simp add: np_max_in_set)
  then obtain j where "best = cells Q j" using row q_row_cells by blast
  then have b: "?lo \<le> best" "best \<le> ?hi" using bounded_QD [OF inv, of j] by simp_all
  have t: "?lo \<le> r + gamma * best" "r + gamma * best \<le> ?hi"
    using discounted_bound [OF g] r b by blast+
  have o: "?lo \<le> cells Q idx" "cells Q idx \<le> ?hi" using bounded_QD [OF inv, of idx] by simp_all
  let ?new = "(1 - alpha) * cells Q idx + alpha * (r + gamma * best)"
  have "min (cells Q idx) (r + gamma * best) \<le> ?new" "?new \<le> max (cells Q idx) (r + gamma * best)"
    using convex_between [OF al] by blast+
  then have n: "?lo \<le> ?new" "?new \<le> ?hi" using t o by linarith+
  show ?thesis
    unfolding bounded_Q_def Q'
  proof (intro allI)
    fix idx'
    show "?lo \<le> cells (Q\<lparr>cells := (cells Q)(idx := ?new)\<rparr>) idx'
          \<and> cells (Q\<lparr>cells := (cells Q)(idx := ?new)\<rparr>) idx' \<le> ?hi"
      using n bounded_QD [OF inv, of idx'] by (cases "idx' = idx") simp_all
  qed
qed

lemma apply_updates_bounded:
  assumes "0 \<le> gamma" "gamma < 1"
    and "\<forall>(s, s', a, r, alpha) \<in> set calls. 0 < alpha \<and> alpha < 1 \<and> r_min \<le> r \<and> r \<le> r_max"
    and "bounded_Q (r_min / (1 - gamma)) (r_max / (1 - gamma)) Q"
    and "apply_updates gamma Q calls = Inr Q'"
  shows "bounded_Q (r_min / (1 - gamma)) (r_max / (1 - gamma)) Q'"
  using assms(3-)
proof (induction calls arbitrary: Q)
  case Nil
  then show ?case by simp
next
  case (Cons c calls)
  obtain s s' a r alpha where c: "c = (s, s', a, r, alpha)" by (cases c)
  from Cons.prems(3) c obtain Q1 where
    step: "update_Q Q s s' a r alpha gamma = Inr Q1" and rest: "apply_updates gamma Q1 calls = Inr Q'"
    by (auto split: sum.splits)
  have "bounded_Q (r_min / (1 - gamma)) (r_max / (1 - gamma)) Q1"
    using assms(1,2) Cons.prems(1) Cons.prems(2) step c
    by (intro update_Q_bounded [where Q = Q and Q' = Q1 and r = r and alpha = alpha and s = s and s' = s' and a = a]) auto
  then show ?case
    using Cons.IH Cons.prems(1) rest by simp
qed

lemma zeros_bounded:
  assumes "0 \<le> gamma" "gamma < 1" "r_min \<le> 0" "0 \<le> r_max"
  shows "bounded_Q (r_min / (1 - gamma)) (r_max / (1 - gamma)) (np_zeros4 dims)"
  using assms by (simp add: bounded_Q_def np_zeros4_def divide_nonpos_pos)

lemma parse_reward_values: "parse_reward g = 1 \<or> parse_reward g = - 100"
  by (simp add: parse_reward_def)

text \<open>
  Claim C3. Start from the all-zero tensor and apply any finite sequence of \<open>update_Q\<close>
  calls with step sizes in \<open>(0, 1)\<close>, a discount \<open>gamma\<close> in \<open>(0, 1)\<close> and rewards between
  \<open>-100\<close> and \<open>1\<close>, the two values of \<open>parse_reward\<close>. Then every entry of the resulting
  tensor lies between \<open>-100 / (1 - gamma)\<close> and \<open>1 / (1 - gamma)\<close>. Every prefix of a
  sequence is such a sequence, so the bound holds after every update.
\<close>

theorem Q_table_bounded:
  assumes "0 < gamma" and "gamma < 1"
    and "\<forall>(s, s', a, r, alpha) \<in> set calls. 0 < alpha \<and> alpha < 1 \<and> - 100 \<le> r \<and> r \<le> 1"
    and "apply_updates gamma (np_zeros4 dims) calls = Inr Q"
  shows "- 100 / (1 - gamma) \<le> cells Q idx \<and> cells Q idx \<le> 1 / (1 - gamma)"
proof -
  have g: "0 \<le> gamma" using assms(1) by simp
  have "bounded_Q (- 100 / (1 - gamma)) (1 / (1 - gamma)) (np_zeros4 dims)"
    using zeros_bounded [OF g assms(2), of "- 100" 1 dims] by simp
  then have "bounded_Q (- 100 / (1 - gamma)) (1 / (1 - gamma)) Q"
    using apply_updates_bounded [OF g assms(2), of calls "- 100" 1 "np_zeros4 dims" Q] assms(3,4)
    by blast
  then show ?thesis by (rule bounded_QD)
qed

theorem Q_table_bounded_witness:
  "(0::real) < 0.99 \<and> (0.99::real) < 1
   \<and> (0::real) < 0.1 \<and> (0.1::real) < 1 \<and> - 100 \<le> parse_reward 0 \<and> parse_reward 0 \<le> 1
   \<and> (\<exists>Q. apply_updates 0.99 (np_zeros4 (35, 103, 103, 2))
              [((30, 30, 40), (30, 30, 41), 1, parse_reward 0, 0.1)] = Inr Q
          \<and> cells Q (30, 30, 40, 1) = 0.1
          \<and> - 100 / (1 - 0.99) \<le> cells Q (30, 30, 40, 1)
          \<and> cells Q (30, 30, 40, 1) \<le> 1 / (1 - 0.99))"
proof -
  let ?Q0 = "np_zeros4 (35, 103, 103, 2)"
  let ?calls = "[((30, 30, 40), (30, 30, 41), 1, parse_reward 0, 0.1 :: real)]"
  have e: "entry_index ?Q0 (30, 30, 40) 1 = Inr (30, 30, 40, 1)"
    by (simp add: entry_index_def row_index_def norm_index_def n_actions_def np_zeros4_def)
  have r: "q_row ?Q0 (30, 30, 41) = Inr [0, 0]"
    by (simp add: q_row_def row_index_def norm_index_def n_actions_def np_zeros4_def upt_rec)
  have u: "update_Q ?Q0 (30, 30, 40) (30, 30, 41) 1 (parse_reward 0) 0.1 0.99
           = Inr (?Q0\<lparr>cells := (cells ?Q0)((30, 30, 40, 1) := 0.1)\<rparr>)"
    using update_Q_succeeds [OF e r, of 0 "parse_reward 0" "0.1" "0.99"]
    by (simp add: parse_reward_def np_zeros4_def)
  have run: "apply_updates 0.99 ?Q0 ?calls = Inr (?Q0\<lparr>cells := (cells ?Q0)((30, 30, 40, 1) := 0.1)\<rparr>)"
    using u by simp
  have h: "\<forall>(s, s', a, r, alpha) \<in> set ?calls. 0 < alpha \<and> alpha < 1 \<and> - 100 \<le> r \<and> r \<le> 1"
    by (simp add: parse_reward_def)
  have "(0::real) < 0.99" "(0.99::real) < 1" by simp_all
  from Q_table_bounded [OF this h run, of "(30, 30, 40, 1)"] run
  show ?thesis by (simp add: parse_reward_def)
qed

text \<open>
  Claim C9. For a state inside the tensor, \<open>choose_action\<close> returns 0 (the jump action,
  key 119) exactly when \<open>Q[s][0]\<close> is strictly greater than \<open>Q[s][1]\<close>, and 1 (do nothing)
  otherwise; on a tie, in particular on an all-zero tensor, it returns 1.
\<close>

theorem choose_action_tie_break:
  assumes "row_index Q s = Inr (i, j, k)" and "n_actions Q = 2"
  shows "\<exists>a. choose_action s Q = Inr a
           \<and> (a = 0 \<longleftrightarrow> cells Q (i, j, k, 0) > cells Q (i, j, k, 1))
           \<and> (a \<noteq> 0 \<longrightarrow> a = 1)
           \<and> (cells Q (i, j, k, 0) = cells Q (i, j, k, 1) \<longrightarrow> a = 1)
           \<and> (cells Q = (\<lambda>_. 0) \<longrightarrow> a = 1)
           \<and> q_get Q s 0 = Inr (cells Q (i, j, k, 0))
           \<and> q_get Q s 1 = Inr (cells Q (i, j, k, 1))
           \<and> action_dict 0 = Inr (Some 119) \<and> action_dict 1 = Inr None"
  using assms
  by (simp add: choose_action_def q_row_def q_get_def entry_index_def norm_index_def
      action_dict_def upt_rec)

theorem choose_action_tie_break_witness:
  "row_index Q_init (30, 30, 40) = Inr (30, 30, 40) \<and> n_actions Q_init = 2
   \<and> choose_action (30, 30, 40) Q_init = Inr 1
   \<and> cells Q_init (30, 30, 40, 0) = cells Q_init (30, 30, 40, 1)"
proof -
  have r: "row_index Q_init (30, 30, 40) = Inr (30, 30, 40)"
    by (simp add: row_index_def norm_index_def Q_init_def np_zeros4_def n_bins_values)
  have n: "n_actions Q_init = 2"
    by (simp add: n_actions_def Q_init_def np_zeros4_def)
  have c: "cells Q_init (30, 30, 40, 0) = cells Q_init (30, 30, 40, 1)"
    by (simp add: Q_init_def np_zeros4_def)
  show ?thesis
    using choose_action_tie_break [OF r n] r n c by auto
qed

lemma bin_bounds:
  fixes x :: real
  shows "0 \<le> x \<Longrightarrow> x < 350 \<Longrightarrow> 0 \<le> \<lfloor>x / bin_size\<rfloor> \<and> \<lfloor>x / bin_size\<rfloor> < 35"
    and "- 512 \<le> x \<Longrightarrow> x < 512 \<Longrightarrow> 0 \<le> \<lfloor>(x + 512) / bin_size\<rfloor> \<and> \<lfloor>(x + 512) / bin_size\<rfloor> < 103"
  by (simp_all add: bin_size_def floor_less_iff)

lemma parse_state_bins:
  assumes "in_screen g"
  obtains i j k where "parse_state g = (i, j, k)"
    "0 \<le> i" "i < 35" "0 \<le> j" "j < 103" "0 \<le> k" "k < 103"
proof -
  let ?i = "\<lfloor>next_pipe_dist_to_player g / bin_size\<rfloor>"
  let ?j = "\<lfloor>(next_pipe_top_y g - player_y g + 512) / bin_size\<rfloor>"
  let ?k = "\<lfloor>(next_pipe_bottom_y g - player_y g + 512) / bin_size\<rfloor>"
  have "0 \<le> ?i \<and> ?i < 35"
    using assms bin_bounds(1) [of "next_pipe_dist_to_player g"] by (simp add: in_screen_def)
  moreover have "0 \<le> ?j \<and> ?j < 103"
    using assms bin_bounds(2) [of "next_pipe_top_y g - player_y g"] by (simp add: in_screen_def)
  moreover have "0 \<le> ?k \<and> ?k < 103"
    using assms bin_bounds(2) [of "next_pipe_bottom_y g - player_y g"] by (simp add: in_screen_def)
  moreover have "parse_state g = (?i, ?j, ?k)" by (simp add: parse_state_def)
  ultimately show ?thesis using that by blast
qed

lemma row_index_parse_state:
  assumes "in_screen g" and "shape Q = (n_bins_dist, n_bins_top, n_bins_bot, 2)"
  obtains i j k where "parse_state g = (i, j, k)"
    "0 \<le> i" "i < 35" "0 \<le> j" "j < 103" "0 \<le> k" "k < 103"
    "row_index Q (parse_state g) = Inr (nat i, nat j, nat k)"
proof -
  from assms(1) obtain i j k where b: "parse_state g = (i, j, k)"
    "0 \<le> i" "i < 35" "0 \<le> j" "j < 103" "0 \<le> k" "k < 103"
    by (rule parse_state_bins)
  then have "row_index Q (parse_state g) = Inr (nat i, nat j, nat k)"
    using assms(2) by (simp add: row_index_def n_bins_values norm_index_in_range)
  with b show ?thesis using that by blast
qed

text \<open>
  Claim C10. For game states whose distance to the next pipe lies in \<open>[0, 350)\<close> and whose
  two height differences lie in \<open>[-512, 512)\<close>, the bins computed by \<open>parse_state\<close> with
  \<open>bin_size = 10\<close> lie inside the dimensions \<open>(35, 103, 103)\<close> of the Q tensor, so neither
  \<open>choose_action\<close> nor \<open>update_Q\<close> raises on the parsed states.
\<close>

theorem parse_state_index_safe:
  assumes "in_screen g" and "in_screen g'"
    and "shape Q = (n_bins_dist, n_bins_top, n_bins_bot, 2)"
    and "action = 0 \<or> action = 1"
  shows "(n_bins_dist, n_bins_top, n_bins_bot) = (35, 103, 103)
         \<and> (\<exists>i j k. parse_state g = (i, j, k)
               \<and> 0 \<le> i \<and> i < int n_bins_dist
               \<and> 0 \<le> j \<and> j < int n_bins_top
               \<and> 0 \<le> k \<and> k < int n_bins_bot
               \<and> row_index Q (parse_state g) = Inr (nat i, nat j, nat k))
         \<and> (\<exists>a. choose_action (parse_state g) Q = Inr a)
         \<and> (\<exists>Q'. update_Q Q (parse_state g) (parse_state g') action reward alpha gamma = Inr Q')"
proof -
  from assms(1,3) obtain i j k where s: "parse_state g = (i, j, k)"
    "0 \<le> i" "i < 35" "0 \<le> j" "j < 103" "0 \<le> k" "k < 103"
    "row_index Q (parse_state g) = Inr (nat i, nat j, nat k)"
    by (rule row_index_parse_state)
  from assms(2,3) obtain i' j' k' where s': 
    "row_index Q (parse_state g') = Inr (nat i', nat j', nat k')"
    by (rule row_index_parse_state)
  have n: "n_actions Q = 2" using assms(3) by (simp add: n_actions_def)
  have bins: "(n_bins_dist, n_bins_top, n_bins_bot) = (35, 103, 103)"
    by (simp add: n_bins_values)
  have idx: "\<exists>i j k. parse_state g = (i, j, k)
               \<and> 0 \<le> i \<and> i < int n_bins_dist
               \<and> 0 \<le> j \<and> j < int n_bins_top
               \<and> 0 \<le> k \<and> k < int n_bins_bot
               \<and> row_index Q (parse_state g) = Inr (nat i, nat j, nat k)"
    using s by (simp add: n_bins_values)
  have ch: "\<exists>a. choose_action (parse_state g) Q = Inr a"
    using s(8) n by (simp add: choose_action_def q_row_def upt_rec)
  have e: "\<exists>idx. entry_index Q (parse_state g) action = Inr idx"
    using s(8) n assms(4) by (auto simp: entry_index_def norm_index_def)
  have r: "\<exists>x y. q_row Q (parse_state g') = Inr [x, y]"
    using s' n by (simp add: q_row_def upt_rec)
  have up: "\<exists>Q'. update_Q Q (parse_state g) (parse_state g') action reward alpha gamma = Inr Q'"
    using e r by (auto simp: update_Q_def Let_def)
  show ?thesis using bins idx ch up by blast
qed

theorem parse_state_index_safe_witness:
  "in_screen example_game_state
   \<and> shape Q_init = (n_bins_dist, n_bins_top, n_bins_bot, 2)
   \<and> parse_state example_game_state = (30, 30, 40)
   \<and> (\<exists>a. choose_action (parse_state example_game_state) Q_init = Inr a)
   \<and> (\<exists>Q'. update_Q Q_init (parse_state example_game_state) (parse_state example_game_state)
              1 1 0.1 0.99 = Inr Q')"
proof -
  have a: "in_screen example_game_state"
    by (simp add: in_screen_def example_game_state_def)
  have b: "shape Q_init = (n_bins_dist, n_bins_top, n_bins_bot, 2)"
    by (simp add: Q_init_def np_zeros4_def)
  have c: "parse_state example_game_state = (30, 30, 40)"
    by (simp add: parse_state_def example_game_state_def bin_size_def)
  have d: "(1::int) = 0 \<or> (1::int) = 1" by simp
  show ?thesis
    using parse_state_index_safe [OF a a b d, of 1 "0.1" "0.99"] a b c by simp
qed

section \<open>Properties of policy iteration\<close>

lemma targets_within_Nil [simp]: "targets_within n []"
  by (simp add: targets_within_def)

lemma targets_within_Cons [simp]:
  "targets_within n ((p, ns, r, d) # ts) \<longleftrightarrow> ns < n \<and> targets_within n ts"
  by (simp add: targets_within_def)

lemma well_formedD:
  assumes "well_formed env" "s < nS env" "a < nA env"
  obtains ts where "P env s a = Some ts" "targets_within (nS env) ts"
proof -
  from assms have "case P env s a of None \<Rightarrow> False
      | Some ts \<Rightarrow> list_all (\<lambda>(probability, next_state, reward, done). next_state < nS env) ts"
    by (simp add: well_formed_def list_all_iff)
  then show ?thesis
    using that by (cases "P env s a") (simp_all add: targets_within_def)
qed

lemma valid_policyD:
  assumes "valid_policy env pol"
  shows "length pol = nS env" and "s < nS env \<Longrightarrow> pol ! s < nA env"
  using assms by (simp_all add: valid_policy_def list_all_length)

subsection \<open>The inner accumulation loop\<close>

lemma bellman_sum_length:
  "bellman_sum g V ts arr idx = Inr arr' \<Longrightarrow> length arr' = length arr"
  by (induction g V ts arr idx rule: bellman_sum.induct) (auto split: if_splits)

lemma bellman_sum_other:
  "bellman_sum g V ts arr idx = Inr arr' \<Longrightarrow> j \<noteq> idx \<Longrightarrow> arr' ! j = arr ! j"
  by (induction g V ts arr idx rule: bellman_sum.induct) (auto split: if_splits)

lemma bellman_sum_succeeds:
  "targets_within (length V) ts \<Longrightarrow> idx < length arr \<Longrightarrow> \<exists>arr'. bellman_sum g V ts arr idx = Inr arr'"
  by (induction g V ts arr idx rule: bellman_sum.induct) auto

subsection \<open>Policy evaluation returns\<close>

lemma evaluation_sweep_length:
  "evaluation_sweep env g V sas tmp = Inr tmp' \<Longrightarrow> length tmp' = length tmp"
proof (induction env g V sas tmp rule: evaluation_sweep.induct)
  case (1 env g V tmp)
  then show ?case by simp
next
  case (2 env g V s a rest tmp)
  then show ?case
    by (auto split: option.splits sum.splits dest: bellman_sum_length)
qed

lemma evaluation_sweep_succeeds:
  assumes "\<forall>(s, a) \<in> set sas. s < length tmp \<and> (\<exists>ts. P env s a = Some ts \<and> targets_within (length V) ts)"
  shows "\<exists>tmp'. evaluation_sweep env g V sas tmp = Inr tmp'"
  using assms
proof (induction sas arbitrary: tmp)
  case Nil
  then show ?case by simp
next
  case (Cons sa sas)
  obtain s a where sa: "sa = (s, a)" by (cases sa)
  from Cons.prems sa obtain ts where ts: "s < length tmp" "P env s a = Some ts" "targets_within (length V) ts"
    by auto
  then obtain tmp1 where t1: "bellman_sum g V ts tmp s = Inr tmp1"
    using bellman_sum_succeeds by blast
  then have len: "length tmp1 = length tmp" by (rule bellman_sum_length)
  have "\<forall>(s, a) \<in> set sas. s < length tmp1 \<and> (\<exists>ts. P env s a = Some ts \<and> targets_within (length V) ts)"
    using Cons.prems len by auto
  from Cons.IH [OF this] show ?case
    using sa ts t1 by simp
qed

lemma enumerate_policy:
  assumes "valid_policy env pol" "(s, a) \<in> set (enumerate 0 pol)"
  shows "s < nS env \<and> a < nA env"
  using assms by (auto simp: in_set_enumerate_eq valid_policy_def list_all_length)

lemma evaluation_loop_succeeds:
  assumes "well_formed env" "valid_policy env pol" "length V = nS env"
  shows "\<exists>V'. evaluation_loop env pol g n V = Inr V' \<and> length V' = nS env"
  using assms(3)
proof (induction n arbitrary: V)
  case 0
  then show ?case by simp
next
  case (Suc n)
  have "\<forall>(s, a) \<in> set (enumerate 0 pol). s < length (replicate (length V) (0::real))
          \<and> (\<exists>ts. P env s a = Some ts \<and> targets_within (length V) ts)"
  proof (clarify)
    fix s a assume "(s, a) \<in> set (enumerate 0 pol)"
    then have sa: "s < nS env" "a < nA env"
      using enumerate_policy [OF assms(2)] by blast+
    from well_formedD [OF assms(1) sa] Suc.prems sa(1)
    show "s < length (replicate (length V) (0::real))
          \<and> (\<exists>ts. P env s a = Some ts \<and> targets_within (length V) ts)"
      by auto
  qed
  then obtain tmp where tmp: "evaluation_sweep env g V (enumerate 0 pol) (replicate (length V) 0) = Inr tmp"
    using evaluation_sweep_succeeds by blast
  then have "length tmp = nS env"
    using evaluation_sweep_length Suc.prems by fastforce
  from Suc.IH [OF this] show ?case
    using tmp by simp
qed

lemma policy_evaluation_succeeds:
  assumes "well_formed env" "valid_policy env pol"
  shows "\<exists>V. policy_evaluation env pol g n = Inr V \<and> length V = nS env"
  unfolding policy_evaluation_def
  using evaluation_loop_succeeds [OF assms] by simp

lemma evaluation_loop_length:
  "evaluation_loop env pol g n V = Inr V' \<Longrightarrow> length V' = length V"
proof (induction n arbitrary: V)
  case 0
  then show ?case by simp
next
  case (Suc n)
  then show ?case
    by (fastforce split: sum.splits dest: evaluation_sweep_length)
qed

lemma policy_evaluation_length:
  "policy_evaluation env pol g n = Inr V \<Longrightarrow> length V = nS env"
  unfolding policy_evaluation_def by (drule evaluation_loop_length) simp

subsection \<open>Action values and the greedy choice\<close>

lemma action_value_loop_length:
  "action_value_loop env s V g as av = Inr av' \<Longrightarrow> length av' = length av"
proof (induction as arbitrary: av)
  case Nil
  then show ?case by simp
next
  case (Cons a as)
  then show ?case
    by (fastforce split: option.splits sum.splits dest: bellman_sum_length)
qed

lemma compute_action_value_length:
  "compute_action_value env s V g = Inr q \<Longrightarrow> length q = nA env"
  unfolding compute_action_value_def by (drule action_value_loop_length) simp

lemma action_value_loop_succeeds:
  assumes "\<forall>a \<in> set as. a < length av \<and> (\<exists>ts. P env s a = Some ts \<and> targets_within (length V) ts)"
  shows "\<exists>av'. action_value_loop env s V g as av = Inr av'"
  using assms
proof (induction as arbitrary: av)
  case Nil
  then show ?case by simp
next
  case (Cons a as)
  from Cons.prems obtain ts where ts: "a < length av" "P env s a = Some ts" "targets_within (length V) ts"
    by auto
  then obtain av1 where a1: "bellman_sum g V ts av a = Inr av1"
    using bellman_sum_succeeds by blast
  then have len: "length av1 = length av" by (rule bellman_sum_length)
  have "\<forall>a \<in> set as. a < length av1 \<and> (\<exists>ts. P env s a = Some ts \<and> targets_within (length V) ts)"
    using Cons.prems len by auto
  from Cons.IH [OF this] show ?case
    using ts a1 by simp
qed

lemma compute_action_value_succeeds:
  assumes "well_formed env" "s < nS env" "length V = nS env"
  shows "\<exists>q. compute_action_value env s V g = Inr q \<and> length q = nA env"
proof -
  have "\<forall>a \<in> set [0..<nA env]. a < length (replicate (nA env) (0::real))
          \<and> (\<exists>ts. P env s a = Some ts \<and> targets_within (length V) ts)"
  proof
    fix a assume "a \<in> set [0..<nA env]"
    then have a: "a < nA env" by simp
    from well_formedD [OF assms(1,2) a] assms(3) a
    show "a < length (replicate (nA env) (0::real))
          \<and> (\<exists>ts. P env s a = Some ts \<and> targets_within (length V) ts)"
      by auto
  qed
  then obtain q where "compute_action_value env s V g = Inr q"
    unfolding compute_action_value_def using action_value_loop_succeeds by blast
  then show ?thesis using compute_action_value_length by blast
qed

lemma first_index_hit:
  "m \<in> set vs \<Longrightarrow> first_index m vs < length vs \<and> vs ! first_index m vs = m"
  by (induction vs) auto

lemma np_argmax_greedy:
  assumes "np_argmax vs = Inr best"
  shows "best < length vs \<and> (\<forall>a<length vs. vs ! a \<le> vs ! best)"
proof -
  from assms obtain m where m: "np_max vs = Inr m" "best = first_index m vs"
    by (auto simp: np_argmax_def split: sum.splits)
  then have mx: "m \<in> set vs" "\<forall>v\<in>set vs. v \<le> m"
    using np_max_in_set by blast+
  then have "best < length vs" "vs ! best = m"
    using first_index_hit m(2) by blast+
  then show ?thesis using mx(2) by simp
qed

lemma np_argmax_succeeds: "vs \<noteq> [] \<Longrightarrow> \<exists>best. np_argmax vs = Inr best"
  by (cases vs) (simp_all add: np_argmax_def)

subsection \<open>Policy improvement\<close>

lemma improvement_loop_length:
  "improvement_loop env V g states pol = Inr pol' \<Longrightarrow> length pol' = length pol"
proof (induction states arbitrary: pol)
  case Nil
  then show ?case by simp
next
  case (Cons s states)
  then show ?case by (fastforce split: sum.splits)
qed

lemma improvement_loop_untouched:
  "improvement_loop env V g states pol = Inr pol' \<Longrightarrow> s \<notin> set states \<Longrightarrow> pol' ! s = pol ! s"
proof (induction states arbitrary: pol)
  case Nil
  then show ?case by simp
next
  case (Cons x states)
  then show ?case by (fastforce split: sum.splits)
qed

lemma improvement_loop_greedy:
  assumes "improvement_loop env V g states pol = Inr pol'" "s \<in> set states" "s < length pol"
  shows "\<exists>q. compute_action_value env s V g = Inr q \<and> np_argmax q = Inr (pol' ! s)"
  using assms
proof (induction states arbitrary: pol)
  case Nil
  then show ?case by simp
next
  case (Cons x states)
  from Cons.prems(1) obtain q best where
    q: "compute_action_value env x V g = Inr q" "np_argmax q = Inr best"
    and rest: "improvement_loop env V g states (pol[x := best]) = Inr pol'"
    by (auto split: sum.splits)
  show ?case
  proof (cases "s \<in> set states")
    case True
    then show ?thesis
      using Cons.IH [OF rest] Cons.prems(3) by simp
  next
    case False
    then have "s = x" using Cons.prems(2) by simp
    moreover have "pol' ! s = (pol[x := best]) ! s"
      using rest False by (rule improvement_loop_untouched)
    ultimately show ?thesis
      using q Cons.prems(3) by simp
  qed
qed

lemma improvement_loop_succeeds:
  assumes "well_formed env" "length V = nS env" "0 < nA env" "\<forall>s \<in> set states. s < nS env"
  shows "\<exists>pol'. improvement_loop env V g states pol = Inr pol'"
  using assms(4)
proof (induction states arbitrary: pol)
  case Nil
  then show ?case by simp
next
  case (Cons s states)
  then have "s < nS env" by simp
  from compute_action_value_succeeds [OF assms(1) this assms(2)]
  obtain q where q: "compute_action_value env s V g = Inr q" "length q = nA env" by blast
  then have "q \<noteq> []" using assms(3) by auto
  then obtain best where "np_argmax q = Inr best" using np_argmax_succeeds by blast
  then show ?case
    using q(1) Cons by simp
qed

lemma policy_improvement_greedy:
  assumes "policy_improvement env V g = Inr pol'" "s < nS env"
  shows "\<exists>q. compute_action_value env s V g = Inr q \<and> np_argmax q = Inr (pol' ! s)"
  using assms improvement_loop_greedy [of env V g "[0..<nS env]" "replicate (nS env) 0" pol' s]
  by (simp add: policy_improvement_def)

lemma policy_improvement_valid:
  assumes "policy_improvement env V g = Inr pol'"
  shows "valid_policy env pol'"
proof -
  have len: "length pol' = nS env"
    using assms improvement_loop_length unfolding policy_improvement_def by fastforce
  have "pol' ! s < nA env" if "s < nS env" for s
  proof -
    from policy_improvement_greedy [OF assms that] obtain q where
      "compute_action_value env s V g = Inr q" "np_argmax q = Inr (pol' ! s)" by blast
    then show ?thesis
      using np_argmax_greedy compute_action_value_length by fastforce
  qed
  then show ?thesis
    using len by (simp add: valid_policy_def list_all_length)
qed

lemma policy_improvement_succeeds:
  assumes "well_formed env" "length V = nS env" "nS env = 0 \<or> 0 < nA env"
  shows "\<exists>pol'. policy_improvement env V g = Inr pol'"
proof (cases "nS env = 0")
  case True
  then show ?thesis by (simp add: policy_improvement_def)
next
  case False
  then have "0 < nA env" using assms(3) by simp
  from improvement_loop_succeeds [OF assms(1,2) this, of "[0..<nS env]"]
  show ?thesis by (simp add: policy_improvement_def)
qed


subsection \<open>What one sweep and one action-value computation store\<close>

lemma bellman_sum_value:
  "bellman_sum g V ts arr idx = Inr arr' \<Longrightarrow> idx < length arr \<Longrightarrow>
     arr' ! idx = expected_return g V ts (arr ! idx)"
  by (induction g V ts arr idx rule: bellman_sum.induct)
     (auto simp: expected_return_def split: if_splits)

lemma evaluation_sweep_untouched:
  "evaluation_sweep env g V sas tmp = Inr tmp' \<Longrightarrow> s \<notin> fst ` set sas \<Longrightarrow> tmp' ! s = tmp ! s"
proof (induction sas arbitrary: tmp)
  case Nil
  then show ?case by simp
next
  case (Cons sa sas)
  obtain x a where sa: "sa = (x, a)" by (cases sa)
  from Cons.prems(1) sa obtain ts tmp1 where
    ts: "P env x a = Some ts" "bellman_sum g V ts tmp x = Inr tmp1"
    and rest: "evaluation_sweep env g V sas tmp1 = Inr tmp'"
    by (auto split: option.splits sum.splits)
  have "s \<noteq> x" "s \<notin> fst ` set sas" using Cons.prems(2) sa by auto
  then show ?case
    using Cons.IH [OF rest] bellman_sum_other [OF ts(2)] by simp
qed

lemma evaluation_sweep_value:
  assumes "evaluation_sweep env g V sas tmp = Inr tmp'"
    and "distinct (map fst sas)" and "(s, a) \<in> set sas" and "s < length tmp"
  shows "\<exists>ts. P env s a = Some ts \<and> tmp' ! s = expected_return g V ts (tmp ! s)"
  using assms
proof (induction sas arbitrary: tmp)
  case Nil
  then show ?case by simp
next
  case (Cons sa sas)
  obtain x b where sa: "sa = (x, b)" by (cases sa)
  from Cons.prems(1) sa obtain ts tmp1 where
    ts: "P env x b = Some ts" "bellman_sum g V ts tmp x = Inr tmp1"
    and rest: "evaluation_sweep env g V sas tmp1 = Inr tmp'"
    by (auto split: option.splits sum.splits)
  have len: "length tmp1 = length tmp" using ts(2) by (rule bellman_sum_length)
  show ?case
  proof (cases "(s, a) = (x, b)")
    case True
    then have "s \<notin> fst ` set sas" using Cons.prems(2) sa by auto
    then have "tmp' ! s = tmp1 ! s" using rest evaluation_sweep_untouched by blast
    also have "\<dots> = expected_return g V ts (tmp ! s)"
      using True ts(2) Cons.prems(4) bellman_sum_value by blast
    finally show ?thesis using True ts(1) by auto
  next
    case False
    then have mem: "(s, a) \<in> set sas" using Cons.prems(3) sa by auto
    then have "s \<noteq> x" using Cons.prems(2) sa by force
    then have "tmp1 ! s = tmp ! s" using ts(2) bellman_sum_other by blast
    then show ?thesis
      using Cons.IH [OF rest _ mem] Cons.prems(2,4) len by simp
  qed
qed

lemma action_value_loop_untouched:
  "action_value_loop env s V g as av = Inr av' \<Longrightarrow> a \<notin> set as \<Longrightarrow> av' ! a = av ! a"
proof (induction as arbitrary: av)
  case Nil
  then show ?case by simp
next
  case (Cons x as)
  from Cons.prems(1) obtain ts av1 where
    ts: "P env s x = Some ts" "bellman_sum g V ts av x = Inr av1"
    and rest: "action_value_loop env s V g as av1 = Inr av'"
    by (auto split: option.splits sum.splits)
  have "a \<noteq> x" "a \<notin> set as" using Cons.prems(2) by auto
  then show ?case
    using Cons.IH [OF rest] bellman_sum_other [OF ts(2)] by simp
qed

lemma action_value_loop_value:
  assumes "action_value_loop env s V g as av = Inr av'"
    and "distinct as" and "a \<in> set as" and "a < length av"
  shows "\<exists>ts. P env s a = Some ts \<and> av' ! a = expected_return g V ts (av ! a)"
  using assms
proof (induction as arbitrary: av)
  case Nil
  then show ?case by simp
next
  case (Cons x as)
  from Cons.prems(1) obtain ts av1 where
    ts: "P env s x = Some ts" "bellman_sum g V ts av x = Inr av1"
    and rest: "action_value_loop env s V g as av1 = Inr av'"
    by (auto split: option.splits sum.splits)
  have len: "length av1 = length av" using ts(2) by (rule bellman_sum_length)
  show ?case
  proof (cases "a = x")
    case True
    then have "a \<notin> set as" using Cons.prems(2) by simp
    then have "av' ! a = av1 ! a" using rest action_value_loop_untouched by blast
    also have "\<dots> = expected_return g V ts (av ! a)"
      using True ts(2) Cons.prems(4) bellman_sum_value by blast
    finally show ?thesis using True ts(1) by auto
  next
    case False
    then have mem: "a \<in> set as" using Cons.prems(3) by simp
    have "av1 ! a = av ! a" using False ts(2) bellman_sum_other by blast
    then show ?thesis
      using Cons.IH [OF rest _ mem] Cons.prems(2,4) len by simp
  qed
qed

lemma compute_action_value_entry:
  assumes "compute_action_value env s V g = Inr q" "a < nA env"
  shows "\<exists>ts. P env s a = Some ts \<and> q ! a = expected_return g V ts 0"
  using action_value_loop_value [of env s V g "[0..<nA env]" "replicate (nA env) 0" q a] assms
  by (simp add: compute_action_value_def)

lemma evaluation_sweep_entry:
  assumes "evaluation_sweep env g V (enumerate 0 pol) (replicate n 0) = Inr tmp"
    and "s < length pol" "s < n"
  shows "\<exists>ts. P env s (pol ! s) = Some ts \<and> tmp ! s = expected_return g V ts 0"
proof -
  have "distinct (map fst (enumerate 0 pol))" by (simp add: map_fst_enumerate)
  moreover have "(s, pol ! s) \<in> set (enumerate 0 pol)"
    using assms(2) by (simp add: in_set_enumerate_eq)
  ultimately show ?thesis
    using evaluation_sweep_value [OF assms(1), of s "pol ! s"] assms(3) by simp
qed

lemma evaluation_loop_Suc:
  "evaluation_loop env pol g (Suc n) V =
     (case evaluation_loop env pol g n V of
        Inl e \<Rightarrow> Inl e
      | Inr V' \<Rightarrow>
          evaluation_sweep env g V' (enumerate 0 pol) (replicate (length V') 0))"
proof (induction n arbitrary: V)
  case 0
  show ?case by (simp split: sum.splits)
next
  case (Suc n)
  show ?case
  proof (cases "evaluation_sweep env g V (enumerate 0 pol) (replicate (length V) 0)")
    case (Inl e)
    then show ?thesis by simp
  next
    case (Inr tmp)
    have "evaluation_loop env pol g (Suc (Suc n)) V = evaluation_loop env pol g (Suc n) tmp"
      using Inr by simp
    also have "\<dots> = (case evaluation_loop env pol g n tmp of
        Inl e \<Rightarrow> Inl e
      | Inr V' \<Rightarrow> evaluation_sweep env g V' (enumerate 0 pol) (replicate (length V') 0))"
      by (rule Suc.IH)
    also have "evaluation_loop env pol g n tmp = evaluation_loop env pol g (Suc n) V"
      using Inr by simp
    finally show ?thesis .
  qed
qed

lemma one_more_sweep:
  assumes "policy_evaluation env pol g n = Inr V"
    and "policy_evaluation env pol g (Suc n) = Inr V'"
    and "compute_action_value env s V g = Inr q"
    and "valid_policy env pol" and "s < nS env"
  shows "V' ! s = q ! (pol ! s)"
proof -
  have len: "length V = nS env" using assms(1) by (rule policy_evaluation_length)
  have "evaluation_sweep env g V (enumerate 0 pol) (replicate (nS env) 0) = Inr V'"
    using assms(1,2) len evaluation_loop_Suc [of env pol g n "replicate (nS env) 0"]
    by (simp add: policy_evaluation_def)
  moreover have "s < length pol" using assms(4,5) by (simp add: valid_policyD)
  ultimately obtain ts where ts: "P env s (pol ! s) = Some ts" "V' ! s = expected_return g V ts 0"
    using evaluation_sweep_entry assms(5) by blast
  have "pol ! s < nA env" using assms(4,5) by (simp add: valid_policyD)
  from compute_action_value_entry [OF assms(3) this] ts show ?thesis by simp
qed

subsection \<open>The outer loop\<close>

lemma iteration_round_Inr:
  assumes "iteration_round env st = Inr st'"
  obtains V where "policy_evaluation env (policy st) 1 100 = Inr V"
    "policy_improvement env V 1 = Inr (policy st')"
    "value_function st' = Some V" "evaluations st' = evaluations st @ [V]"
  using assms by (auto simp: iteration_round_def split: sum.splits)

lemma valid_policy_actions:
  assumes "valid_policy env pol"
  shows "nS env = 0 \<or> 0 < nA env"
proof (cases "nS env = 0")
  case False
  then have "pol ! 0 < nA env" using assms by (simp add: valid_policyD)
  then show ?thesis by simp
qed simp

lemma iteration_round_succeeds:
  assumes "well_formed env" "valid_policy env (policy st)"
  shows "\<exists>st'. iteration_round env st = Inr st' \<and> valid_policy env (policy st')"
proof -
  from policy_evaluation_succeeds [OF assms] obtain V where
    V: "policy_evaluation env (policy st) 1 100 = Inr V" "length V = nS env" by blast
  from policy_improvement_succeeds [OF assms(1) V(2) valid_policy_actions [OF assms(2)]]
  obtain p where p: "policy_improvement env V 1 = Inr p" by blast
  then have "valid_policy env p" by (rule policy_improvement_valid)
  then show ?thesis using V(1) p by (simp add: iteration_round_def)
qed

lemma iteration_loop_add:
  "iteration_loop env (m + n) st =
     (case iteration_loop env m st of Inl e \<Rightarrow> Inl e | Inr st' \<Rightarrow> iteration_loop env n st')"
  by (induction m arbitrary: st) (auto split: sum.splits)

lemma iteration_loop_Suc:
  "iteration_loop env (Suc n) st =
     (case iteration_loop env n st of Inl e \<Rightarrow> Inl e | Inr st' \<Rightarrow> iteration_round env st')"
  using iteration_loop_add [of env n 1 st] by (simp split: sum.splits)

lemma iteration_loop_succeeds:
  assumes "well_formed env" "valid_policy env (policy st)"
  shows "\<exists>st'. iteration_loop env n st = Inr st' \<and> valid_policy env (policy st')"
  using assms(2)
proof (induction n arbitrary: st)
  case 0
  then show ?case by simp
next
  case (Suc n)
  from iteration_round_succeeds [OF assms(1) Suc.prems] obtain st1 where
    "iteration_round env st = Inr st1" "valid_policy env (policy st1)" by blast
  then show ?case using Suc.IH [of st1] by simp
qed

lemma iteration_loop_evaluations:
  "iteration_loop env n st = Inr st' \<Longrightarrow>
     \<exists>vs. evaluations st' = evaluations st @ vs \<and> length vs = n"
proof (induction n arbitrary: st)
  case 0
  then show ?case by simp
next
  case (Suc n)
  from Suc.prems obtain st1 where
    r: "iteration_round env st = Inr st1" and l: "iteration_loop env n st1 = Inr st'"
    by (auto split: sum.splits)
  from r obtain V where "evaluations st1 = evaluations st @ [V]" by (rule iteration_round_Inr)
  moreover from Suc.IH [OF l] obtain vs where "evaluations st' = evaluations st1 @ vs" "length vs = n"
    by blast
  ultimately show ?case by simp
qed

lemma iteration_loop_round:
  assumes "iteration_loop env n st0 = Inr st" and "k < n" and "evaluations st0 = []"
  obtains st_k st_k' where
    "iteration_loop env k st0 = Inr st_k" "iteration_round env st_k = Inr st_k'"
    "iteration_loop env (Suc k) st0 = Inr st_k'"
    "length (evaluations st_k) = k"
    "value_function st_k' = Some (evaluations st ! k)"
proof -
  have n: "n = Suc k + (n - Suc k)" using assms(2) by simp
  from assms(1) obtain st1 where
    s1: "iteration_loop env (Suc k) st0 = Inr st1" and rest: "iteration_loop env (n - Suc k) st1 = Inr st"
    using iteration_loop_add [of env "Suc k" "n - Suc k" st0] n by (auto split: sum.splits)
  from s1 obtain st_k where
    sk: "iteration_loop env k st0 = Inr st_k" and r: "iteration_round env st_k = Inr st1"
    using iteration_loop_Suc [of env k st0] by (auto split: sum.splits)
  from iteration_loop_evaluations [OF sk] assms(3) have len: "length (evaluations st_k) = k"
    by auto
  from r obtain V where V: "value_function st1 = Some V" "evaluations st1 = evaluations st_k @ [V]"
    by (rule iteration_round_Inr)
  from iteration_loop_evaluations [OF rest] obtain vs where "evaluations st = evaluations st1 @ vs"
    by blast
  then have "evaluations st ! k = V" using V(2) len by (simp add: nth_append)
  then show ?thesis using that sk r s1 len V(1) by blast
qed


subsection \<open>The example environment\<close>

lemma shortcut_env_well_formed: "well_formed shortcut_env"
  by (simp add: well_formed_def shortcut_env_def upt_rec)

lemma shortcut_env_sizes: "nS shortcut_env = 3" "nA shortcut_env = 2"
  by (simp_all add: shortcut_env_def)

lemma shortcut_policy_valid: "valid_policy shortcut_env [0, 0, 0]"
  by (simp add: valid_policy_def shortcut_env_def)

lemma shortcut_evaluation_0:
  "policy_evaluation shortcut_env [0, 0, 0] 1 100 = Inr [199, 200, 0]"
  by (simp add: policy_evaluation_def shortcut_env_def enumerate_eq_zip upt_rec numeral_eq_Suc)

lemma shortcut_improvement_0:
  "policy_improvement shortcut_env [199, 200, 0] 1 = Inr [1, 0, 0]"
  by (simp add: policy_improvement_def compute_action_value_def np_argmax_def shortcut_env_def
      upt_rec numeral_eq_Suc)

lemma shortcut_evaluation_1:
  "policy_evaluation shortcut_env [1, 0, 0] 1 100 = Inr [198, 200, 0]"
  by (simp add: policy_evaluation_def shortcut_env_def enumerate_eq_zip upt_rec numeral_eq_Suc)

lemma shortcut_improvement_1:
  "policy_improvement shortcut_env [198, 200, 0] 1 = Inr [1, 0, 0]"
  by (simp add: policy_improvement_def compute_action_value_def np_argmax_def shortcut_env_def
      upt_rec numeral_eq_Suc)

lemma shortcut_round_0:
  "iteration_round shortcut_env (initial_state [0, 0, 0]) =
     Inr \<lparr>value_function = Some [199, 200, 0], policy = [1, 0, 0], evaluations = [[199, 200, 0]]\<rparr>"
  by (simp add: iteration_round_def initial_state_def shortcut_evaluation_0 shortcut_improvement_0)

lemma shortcut_round_1:
  "iteration_round shortcut_env
     \<lparr>value_function = Some [199, 200, 0], policy = [1, 0, 0], evaluations = [[199, 200, 0]]\<rparr> =
     Inr \<lparr>value_function = Some [198, 200, 0], policy = [1, 0, 0],
          evaluations = [[199, 200, 0], [198, 200, 0]]\<rparr>"
  by (simp add: iteration_round_def shortcut_evaluation_1 shortcut_improvement_1 del: One_nat_def)

text \<open>
  Claim C1 as stated fails. In \<open>shortcut_env\<close> state 1 pays 2 for ever and state 2 pays
  nothing; from state 0, action 0 pays 199 and moves to state 2, action 1 pays nothing and
  moves to state 1. With the initial policy \<open>[0, 0, 0]\<close> the first round computes the value
  199 at state 0; the greedy step, looking at the 100-sweep value 200 of state 1, switches
  to action 1, and the second round computes 198 at state 0: only 99 of the 100 sweeps
  collect the reward of state 1.
\<close>

theorem policy_iteration_not_monotone:
  "well_formed shortcut_env \<and> valid_policy shortcut_env [0, 0, 0]
   \<and> policy_iteration_trace shortcut_env [0, 0, 0] 2 = Inr [[199, 200, 0], [198, 200, 0]]
   \<and> ([198, 200, 0] ! 0 :: real) < [199, 200, 0] ! 0"
  by (simp add: policy_iteration_trace_def numeral_2_eq_2 shortcut_env_sizes shortcut_round_0
      shortcut_round_1 shortcut_env_well_formed shortcut_policy_valid del: One_nat_def)

text \<open>
  Claim C1, amended. For a well-formed transition table, a valid initial policy, every
  round \<open>i\<close> and every state \<open>s\<close>: round \<open>i\<close> evaluates its policy with 100 sweeps, giving
  \<open>V\<close>, and the policy it then chooses is greedy for \<open>V\<close>: its action value \<open>q\<close> at \<open>s\<close> is
  at least that of every action, hence at least that of the evaluated policy, which is
  the value a 101st evaluation sweep would give at \<open>s\<close>.
\<close>

theorem policy_iteration_greedy_step:
  assumes "well_formed env" and "valid_policy env policy0" and "s < nS env"
  shows "\<exists>st_i st V V' q.
           iteration_loop env i (initial_state policy0) = Inr st_i
         \<and> iteration_loop env (Suc i) (initial_state policy0) = Inr st
         \<and> value_function st = Some V
         \<and> evaluations st ! i = V
         \<and> policy_evaluation env (policy st_i) 1 100 = Inr V
         \<and> policy_evaluation env (policy st_i) 1 101 = Inr V'
         \<and> compute_action_value env s V 1 = Inr q
         \<and> (\<forall>a<nA env. q ! a \<le> q ! (policy st ! s))
         \<and> V' ! s = q ! (policy st_i ! s)
         \<and> V' ! s \<le> q ! (policy st ! s)"
proof -
  let ?st0 = "initial_state policy0"
  have v0: "valid_policy env (policy ?st0)" using assms(2) by (simp add: initial_state_def)
  have e0: "evaluations ?st0 = []" by (simp add: initial_state_def)
  from iteration_loop_succeeds [OF assms(1) v0, of "Suc i"] obtain st where
    st: "iteration_loop env (Suc i) ?st0 = Inr st" by blast
  from iteration_loop_succeeds [OF assms(1) v0, of i] obtain st_i where
    sti: "iteration_loop env i ?st0 = Inr st_i" and vi: "valid_policy env (policy st_i)" by blast
  have r: "iteration_round env st_i = Inr st"
    using st sti iteration_loop_Suc [of env i ?st0] by simp
  from r obtain V where
    V: "policy_evaluation env (policy st_i) 1 100 = Inr V"
    and imp: "policy_improvement env V 1 = Inr (policy st)"
    and vf: "value_function st = Some V"
    and ev: "evaluations st = evaluations st_i @ [V]"
    by (rule iteration_round_Inr)
  have "length (evaluations st_i) = i"
    using iteration_loop_evaluations [OF sti] e0 by auto
  then have nth: "evaluations st ! i = V" using ev by (simp add: nth_append)
  from policy_evaluation_succeeds [OF assms(1) vi, of 1 101] obtain V' where
    V': "policy_evaluation env (policy st_i) 1 101 = Inr V'" by blast
  from policy_improvement_greedy [OF imp assms(3)] obtain q where
    q: "compute_action_value env s V 1 = Inr q" and best: "np_argmax q = Inr (policy st ! s)"
    by blast
  have lq: "length q = nA env" using q by (rule compute_action_value_length)
  have greedy: "\<forall>a<nA env. q ! a \<le> q ! (policy st ! s)"
    using np_argmax_greedy [OF best] lq by simp
  have "policy_evaluation env (policy st_i) 1 (Suc 100) = Inr V'" using V' by simp
  from one_more_sweep [OF V this q vi assms(3)]
  have sweep: "V' ! s = q ! (policy st_i ! s)" .
  have "policy st_i ! s < nA env" using vi assms(3) by (simp add: valid_policyD)
  then have "V' ! s \<le> q ! (policy st ! s)" using greedy sweep by simp
  then show ?thesis
    using sti st vf nth V V' q greedy sweep by blast
qed

theorem policy_iteration_greedy_step_witness:
  "well_formed shortcut_env \<and> valid_policy shortcut_env [0, 0, 0] \<and> 0 < nS shortcut_env
   \<and> (\<exists>st V' q. iteration_loop shortcut_env (Suc 0) (initial_state [0, 0, 0]) = Inr st
          \<and> policy_evaluation shortcut_env [0, 0, 0] 1 101 = Inr V'
          \<and> compute_action_value shortcut_env 0 [199, 200, 0] 1 = Inr q
          \<and> V' ! 0 \<le> q ! (policy st ! 0))"
proof -
  have s: "0 < nS shortcut_env" by (simp add: shortcut_env_def)
  from policy_iteration_greedy_step [OF shortcut_env_well_formed shortcut_policy_valid s, of 0]
  obtain st_i st V V' q where
    a: "iteration_loop shortcut_env 0 (initial_state [0, 0, 0]) = Inr st_i"
    and b: "iteration_loop shortcut_env (Suc 0) (initial_state [0, 0, 0]) = Inr st"
    and c: "value_function st = Some V"
    and d: "policy_evaluation shortcut_env (policy st_i) 1 101 = Inr V'"
    and e: "compute_action_value shortcut_env 0 V 1 = Inr q"
    and f: "V' ! 0 \<le> q ! (policy st ! 0)"
    by blast
  from a have "policy st_i = [0, 0, 0]" by (auto simp: initial_state_def)
  moreover from b c have "V = [199, 200, 0]" by (auto simp: shortcut_round_0)
  ultimately show ?thesis
    using shortcut_env_well_formed shortcut_policy_valid s b d e f by auto
qed

text \<open>
  On a well-formed transition table and a valid initial policy the loop of
  \<open>policy_iteration\<close> runs exactly \<open>max_iter\<close> rounds, whatever the policies are: round \<open>k\<close>
  evaluates the policy left by the rounds before it with 100 sweeps and improves on it,
  and policy evaluation returns for every sweep bound. After one round or more the
  function returns the last value function and policy.
\<close>

lemma policy_iteration_rounds:
  assumes "well_formed env" and "valid_policy env policy0"
  shows "\<exists>st. iteration_loop env max_iter (initial_state policy0) = Inr st
           \<and> length (evaluations st) = max_iter
           \<and> valid_policy env (policy st)
           \<and> policy_iteration env policy0 max_iter =
               (if max_iter = 0 then Inl UnboundLocalError
                else Inr (last (evaluations st), policy st))
           \<and> (\<forall>k<max_iter. \<exists>st_k st_k'.
                 iteration_loop env k (initial_state policy0) = Inr st_k
               \<and> iteration_loop env (Suc k) (initial_state policy0) = Inr st_k'
               \<and> policy_evaluation env (policy st_k) 1 100 = Inr (evaluations st ! k)
               \<and> policy_improvement env (evaluations st ! k) 1 = Inr (policy st_k'))
           \<and> (\<forall>pol gamma n. valid_policy env pol \<longrightarrow>
                 (\<exists>V. policy_evaluation env pol gamma n = Inr V \<and> length V = nS env))"
proof -
  let ?st0 = "initial_state policy0"
  have v0: "valid_policy env (policy ?st0)" using assms(2) by (simp add: initial_state_def)
  have e0: "evaluations ?st0 = []" by (simp add: initial_state_def)
  from iteration_loop_succeeds [OF assms(1) v0, of max_iter] obtain st where
    st: "iteration_loop env max_iter ?st0 = Inr st" and vst: "valid_policy env (policy st)"
    by blast
  have len: "length (evaluations st) = max_iter"
    using iteration_loop_evaluations [OF st] e0 by auto
  have rounds: "\<forall>k<max_iter. \<exists>st_k st_k'.
                 iteration_loop env k ?st0 = Inr st_k
               \<and> iteration_loop env (Suc k) ?st0 = Inr st_k'
               \<and> policy_evaluation env (policy st_k) 1 100 = Inr (evaluations st ! k)
               \<and> policy_improvement env (evaluations st ! k) 1 = Inr (policy st_k')"
  proof (intro allI impI)
    fix k assume "k < max_iter"
    from iteration_loop_round [OF st this e0] obtain st_k st_k' where
      k: "iteration_loop env k ?st0 = Inr st_k" "iteration_round env st_k = Inr st_k'"
         "iteration_loop env (Suc k) ?st0 = Inr st_k'"
         "value_function st_k' = Some (evaluations st ! k)"
      by blast
    from k(2) obtain V where
      "policy_evaluation env (policy st_k) 1 100 = Inr V"
      "policy_improvement env V 1 = Inr (policy st_k')" "value_function st_k' = Some V"
      by (rule iteration_round_Inr)
    then show "\<exists>st_k st_k'.
                 iteration_loop env k ?st0 = Inr st_k
               \<and> iteration_loop env (Suc k) ?st0 = Inr st_k'
               \<and> policy_evaluation env (policy st_k) 1 100 = Inr (evaluations st ! k)
               \<and> policy_improvement env (evaluations st ! k) 1 = Inr (policy st_k')"
      using k by auto
  qed
  have act: "\<not> (nA env = 0 \<and> nS env \<noteq> 0)"
    using valid_policy_actions [OF assms(2)] by auto
  have ret: "policy_iteration env policy0 max_iter =
               (if max_iter = 0 then Inl UnboundLocalError
                else Inr (last (evaluations st), policy st))"
  proof (cases "max_iter = 0")
    case True
    then show ?thesis
      using act by (simp add: policy_iteration_def initial_state_def)
  next
    case False
    then have "max_iter - 1 < max_iter" by simp
    from iteration_loop_round [OF st this e0] obtain st' where
      "iteration_loop env (Suc (max_iter - 1)) ?st0 = Inr st'"
      "value_function st' = Some (evaluations st ! (max_iter - 1))"
      by blast
    then have "value_function st = Some (evaluations st ! (max_iter - 1))"
      using False st by simp
    moreover have "evaluations st \<noteq> []" using len False by auto
    then have "evaluations st ! (max_iter - 1) = last (evaluations st)"
      using len by (simp add: last_conv_nth)
    ultimately show ?thesis
      using False st act by (simp add: policy_iteration_def)
  qed
  have total: "\<forall>pol gamma n. valid_policy env pol \<longrightarrow>
                 (\<exists>V. policy_evaluation env pol gamma n = Inr V \<and> length V = nS env)"
    using policy_evaluation_succeeds [OF assms(1)] by blast
  show ?thesis
    using st len vst ret rounds total by blast
qed



section \<open>Properties of the recommender\<close>

lemma squared_distance_nonneg: "0 \<le> squared_distance u v"
  unfolding squared_distance_def by (rule sum_list_nonneg) auto

lemma squared_distance_self: "squared_distance u u = 0"
  unfolding squared_distance_def by (induction u) simp_all

text \<open>
  On rows of equal length the distance is the sum, over the first ten components, of the
  squared differences.
\<close>

lemma squared_distance_components:
  assumes "length u = length v"
  shows "squared_distance u v = (\<Sum>c = 0..<length u. (u ! c - v ! c)\<^sup>2)"
proof -
  have "squared_distance u v = (\<Sum>c = 0..<length (zip u v). map2 (\<lambda>a b. (a - b)\<^sup>2) u v ! c)"
    unfolding squared_distance_def by (simp add: sum_list_sum_nth)
  also have "\<dots> = (\<Sum>c = 0..<length u. (u ! c - v ! c)\<^sup>2)"
    using assms by (intro sum.cong) simp_all
  finally show ?thesis .
qed

lemma latent_distance_components:
  assumes "length (latents ! i) = length (latents ! b)"
  shows "latent_distance latents b i =
           (\<Sum>c = 0..<min (length (latents ! i)) 10. (latents ! i ! c - latents ! b ! c)\<^sup>2)"
  using assms squared_distance_components [of "take 10 (latents ! i)" "take 10 (latents ! b)"]
  by (simp add: latent_distance_def)

lemma set_take_drop:
  "set (take m (drop k xs)) = {xs ! p | p. k \<le> p \<and> p < k + m \<and> p < length xs}"
proof (intro equalityI subsetI)
  fix x assume "x \<in> set (take m (drop k xs))"
  then obtain i where i: "i < length (take m (drop k xs))" "x = take m (drop k xs) ! i"
    by (auto simp: in_set_conv_nth)
  then have "i < m" "k + i < length xs" by auto
  moreover from this i(2) have "x = xs ! (k + i)" by simp
  ultimately show "x \<in> {xs ! p | p. k \<le> p \<and> p < k + m \<and> p < length xs}" by auto
next
  fix x assume "x \<in> {xs ! p | p. k \<le> p \<and> p < k + m \<and> p < length xs}"
  then obtain p where p: "x = xs ! p" "k \<le> p" "p < k + m" "p < length xs" by blast
  then have i: "p - k < length (take m (drop k xs))" by auto
  have "take m (drop k xs) ! (p - k) = xs ! p" using p by simp
  then show "x \<in> set (take m (drop k xs))"
    using i p(1) nth_mem by metis
qed

lemma np_argsort_props:
  "length (np_argsort ds) = length ds"
  "distinct (np_argsort ds)"
  "set (np_argsort ds) = {..<length ds}"
  "sorted (map (\<lambda>i. ds ! i) (np_argsort ds))"
  by (auto simp: np_argsort_def sorted_sort_key)

text \<open>
  Claim C8 as stated fails on items with equal scores. Items 0 and 1 of
  \<open>duplicate_latents\<close> coincide in their first ten scores; asked for one recommendation
  for item 1, the recommender skips position 0 of the ordering, which holds item 0, and
  recommends item 1 itself.
\<close>

theorem recommend_includes_bought_item:
  "(0::int) \<le> 1 \<and> (1::int) < int (length duplicate_latents)
   \<and> recommend duplicate_latents 1 1 = Inr [1]
   \<and> latent_distance duplicate_latents 1 0 = 0
   \<and> (1::nat) \<in> set [1] \<and> (0::nat) \<notin> set [1]"
  by (simp add: recommend_def duplicate_latents_def np_argsort_def squared_distance_def
      latent_distance_def upt_rec)

text \<open>
  Claim C8, amended. For a valid \<open>bought_id\<close>, \<open>recommend\<close> orders all items by their squared
  distance to the bought item over the first 10 components and recommends the items at
  positions 1 to \<open>min num_recommendation (n - 1)\<close> of that ordering. Position 0, which is
  skipped, holds an item at distance 0; every recommended item is at least as near as
  every item that is neither recommended nor at position 0. When no other item is at
  distance 0 from the bought item, position 0 holds the bought item itself, so that the
  recommendations are its nearest neighbours.
\<close>

theorem recommend_positions:
  assumes "0 \<le> bought_id" and "bought_id < int (length latents)"
  shows "\<exists>order.
           recommend latents bought_id num_recommendation
             = Inr (take num_recommendation (drop 1 order))
         \<and> length order = length latents \<and> distinct order \<and> set order = {..<length latents}
         \<and> sorted (map (latent_distance latents (nat bought_id)) order)
         \<and> latent_distance latents (nat bought_id) (order ! 0) = 0
         \<and> length (take num_recommendation (drop 1 order))
             = min num_recommendation (length latents - 1)
         \<and> order ! 0 \<notin> set (take num_recommendation (drop 1 order))
         \<and> (\<forall>i \<in> set (take num_recommendation (drop 1 order)). \<forall>j<length latents.
               j \<noteq> order ! 0 \<longrightarrow> j \<notin> set (take num_recommendation (drop 1 order)) \<longrightarrow>
               latent_distance latents (nat bought_id) i \<le> latent_distance latents (nat bought_id) j)
         \<and> ((\<forall>j<length latents. j \<noteq> nat bought_id \<longrightarrow>
                 latent_distance latents (nat bought_id) j \<noteq> 0) \<longrightarrow>
              order ! 0 = nat bought_id)"
proof -
  let ?n = "length latents"
  let ?b = "nat bought_id"
  let ?d = "latent_distance latents ?b"
  define distances where
    "distances = map (\<lambda>row. squared_distance row (map (take 10) latents ! ?b)) (map (take 10) latents)"
  define order where "order = np_argsort distances"
  let ?order = order
  let ?res = "take num_recommendation (drop 1 order)"
  have b: "?b < ?n" using assms by simp
  have ld: "length distances = ?n" by (simp add: distances_def)
  have dist: "distances ! i = ?d i" if "i < ?n" for i
    using that b by (simp add: latent_distance_def distances_def)
  have run: "recommend latents bought_id num_recommendation = Inr ?res"
    using assms by (simp add: recommend_def Let_def distances_def order_def)
  have len: "length ?order = ?n" by (simp add: order_def np_argsort_props ld)
  have dis: "distinct ?order" by (simp add: order_def np_argsort_props)
  have set: "set ?order = {..<?n}" by (simp add: order_def np_argsort_props ld)
  have "map (\<lambda>i. distances ! i) ?order = map ?d ?order"
    using set dist by (intro map_cong) auto
  moreover have "sorted (map (\<lambda>i. distances ! i) ?order)"
    unfolding order_def by (rule np_argsort_props(4))
  ultimately have srt: "sorted (map ?d ?order)" by (simp only:)
  have mono: "?d (?order ! p) \<le> ?d (?order ! q)" if "p \<le> q" "q < ?n" for p q
    using sorted_nth_mono [OF srt that(1)] that len by simp
  have "?b \<in> set ?order" using set b by simp
  then obtain p where p: "p < ?n" "?order ! p = ?b"
    using len by (auto simp: in_set_conv_nth)
  have "?d ?b = 0" by (simp add: latent_distance_def squared_distance_self)
  then have "?d (?order ! 0) \<le> 0" using mono [of 0 p] p by simp
  moreover have "0 \<le> ?d (?order ! 0)" by (simp add: latent_distance_def squared_distance_nonneg)
  ultimately have zero: "?d (?order ! 0) = 0" by simp
  have lres: "length ?res = min num_recommendation (?n - 1)" using len by simp
  have res: "set ?res = {?order ! p | p. 1 \<le> p \<and> p < 1 + num_recommendation \<and> p < ?n}"
    using set_take_drop [of num_recommendation 1 ?order] len by simp
  have first: "?order ! 0 \<notin> set ?res"
  proof
    assume "?order ! 0 \<in> set ?res"
    then obtain q where "?order ! 0 = ?order ! q" "1 \<le> q" "q < ?n" using res by auto
    moreover from this have "0 < length order" "q < length order" using len by auto
    ultimately have "0 = q" using nth_eq_iff_index_eq [OF dis] by blast
    then show False using \<open>1 \<le> q\<close> by simp
  qed
  have near: "\<forall>i \<in> set ?res. \<forall>j<?n. j \<noteq> ?order ! 0 \<longrightarrow> j \<notin> set ?res \<longrightarrow> ?d i \<le> ?d j"
  proof (intro ballI allI impI)
    fix i j assume i: "i \<in> set ?res" and j: "j < ?n" "j \<noteq> ?order ! 0" "j \<notin> set ?res"
    from i obtain p where p: "i = ?order ! p" "1 \<le> p" "p < 1 + num_recommendation" "p < ?n"
      using res by auto
    from j(1) have "j \<in> set ?order" using set by simp
    then obtain q where q: "q < ?n" "?order ! q = j" using len by (auto simp: in_set_conv_nth)
    have "q \<noteq> 0"
    proof
      assume "q = 0"
      then have "j = order ! 0" using q(2) by simp
      then show False using j(2) by simp
    qed
    moreover have "\<not> (1 \<le> q \<and> q < 1 + num_recommendation)" using q j(3) res by auto
    ultimately have "p \<le> q" using p by simp
    then show "?d i \<le> ?d j" using mono [of p q] p q by simp
  qed
  have uniq: "(\<forall>j<?n. j \<noteq> ?b \<longrightarrow> ?d j \<noteq> 0) \<longrightarrow> ?order ! 0 = ?b"
  proof
    assume a: "\<forall>j<?n. j \<noteq> ?b \<longrightarrow> ?d j \<noteq> 0"
    have "0 < length order" using len b by linarith
    then have "?order ! 0 \<in> set ?order" by (rule nth_mem)
    then have "?order ! 0 < ?n" using set by simp
    then show "?order ! 0 = ?b" using a zero by blast
  qed
  show ?thesis
    using run len dis set srt zero lres first near uniq by blast
qed

theorem recommend_positions_witness:
  "(0::int) \<le> 2 \<and> (2::int) < int (length duplicate_latents)
   \<and> recommend duplicate_latents 2 5 = Inr [0, 1]
   \<and> latent_distance duplicate_latents 2 0 = 25
   \<and> latent_distance duplicate_latents 2 1 = 25"
proof -
  have a: "(0::int) \<le> 2" by simp
  have b: "(2::int) < int (length duplicate_latents)" by (simp add: duplicate_latents_def)
  have c: "recommend duplicate_latents 2 5 = Inr [0, 1]"
    by (simp add: recommend_def duplicate_latents_def np_argsort_def squared_distance_def upt_rec)
  have d: "latent_distance duplicate_latents 2 0 = 25" "latent_distance duplicate_latents 2 1 = 25"
    by (simp_all add: latent_distance_def duplicate_latents_def squared_distance_def)
  from recommend_positions [OF a b, of 5] c d a b show ?thesis by simp
qed

end
